theory Spec2Isabelle
  imports Main "HOL-Library.AList"
begin

section \<open>Online-DDL metadata store (syncer/online-ddl-tools/online_ddl.go)\<close>

text \<open>
  The store \<open>Storage\<close> keeps, for one replication source, a two-level Go map
  \<open>ghost schema => ghost table => *GhostDDLInfo\<close> and mirrors it in a table of the
  downstream database. The embedding keeps what the Go code shares: the
  \<open>*GhostDDLInfo\<close> values are addresses into a heap of structs, a \<open>[]string\<close> is a slice
  header (array address, length, capacity) over a heap of backing arrays, and the
  database connection is a part of the state with the rows it holds.
\<close>

subsection \<open>Errors\<close>

datatype scope = ScopeDownstream

datatype error =
    Cause string
  | ErrDBDriverError error
  | ErrSyncerUnitOnlineDDLInvalidMeta error
  | Scoped scope error

text \<open>
  Modelled from the spec: \<open>terror.WithScope\<close> of \<open>pkg/terror\<close> is not among the sources.
  The spec says that a failure of the durable store is "tagged with a downstream scope"
  and that success stays success: \<open>nil\<close> is returned as \<open>nil\<close>.
\<close>

definition WithScope :: "error option \<Rightarrow> scope \<Rightarrow> error option" where
  "WithScope err sc = (case err of None \<Rightarrow> None | Some e \<Rightarrow> Some (Scoped sc e))"

text \<open>
  Modelled from the spec: \<open>terror.DBErrorAdapt\<close> of \<open>pkg/terror\<close> is not among the
  sources. It turns a driver error into the given error class and keeps \<open>nil\<close>.
\<close>

definition DBErrorAdapt :: "error option \<Rightarrow> error option" where
  "DBErrorAdapt err = (case err of None \<Rightarrow> None | Some e \<Rightarrow> Some (ErrDBDriverError e))"

text \<open>\<open>terror.ErrSyncerUnitOnlineDDLInvalidMeta.Delegate(err)\<close>\<close>

definition Delegate_InvalidMeta :: "error \<Rightarrow> error" where
  "Delegate_InvalidMeta e = ErrSyncerUnitOnlineDDLInvalidMeta e"

subsection \<open>Go values: slices and the \<open>GhostDDLInfo\<close> struct\<close>

type_synonym addr = nat

text \<open>A slice header. The nil slice has length and capacity 0.\<close>

record slice =
  ptr :: addr
  len :: nat
  cap :: nat

definition nil_slice :: slice where
  "nil_slice = \<lparr>ptr = 0, len = 0, cap = 0\<rparr>"

record GhostDDLInfo =
  Schema :: string
  Table :: string
  DDLs :: slice

text \<open>
  What lies outside the repository and is called by it: the capacity that the Go
  runtime gives to a reallocated slice, and \<open>encoding/json\<close> on a \<open>GhostDDLInfo\<close>, which
  is seen through the struct's contents (schema, table, the elements of \<open>DDLs\<close>).
  \<open>json_Unmarshal\<close> is the decoding into a zero struct: the error and the contents
  the struct has afterwards.
\<close>

type_synonym contents = "string \<times> string \<times> string list"

record go_env =
  growslice :: "nat \<Rightarrow> nat"
  json_Marshal :: "contents \<Rightarrow> error + string"
  json_Unmarshal :: "string \<Rightarrow> error option \<times> contents"

subsection \<open>The durable store and the events of a run\<close>

text \<open>The four statements the store sends, with their parameters.\<close>

datatype stmt =
    Replace string string string string
  | DeleteRow string string string
  | DeleteAll string
  | CreateSchema
  | CreateTable

datatype event =
    Lock | Unlock | RLock | RUnlock
  | Exec stmt "error option"
  | Query string "error option"
  | ResetConnCall "error option"
  | CloseBaseDB

type_synonym key = "string \<times> string \<times> string"

text \<open>
  Modelled from the spec: the connection wrapper \<open>dbconn.DBConn\<close> and the table it
  writes are not among the sources. The spec gives the table one row per
  (source identity, ghost schema, ghost table) holding the serialized Record, an upsert
  (replace on conflict) on that triple, a delete by triple and a delete by identity;
  the two \<open>CREATE ... IF NOT EXISTS\<close> leave the rows alone.
\<close>

fun apply_stmt :: "stmt \<Rightarrow> (key \<Rightarrow> string option) \<Rightarrow> (key \<Rightarrow> string option)" where
  "apply_stmt (Replace i gs gt payload) r = r((i, gs, gt) \<mapsto> payload)"
| "apply_stmt (DeleteRow i gs gt) r = r((i, gs, gt) := None)"
| "apply_stmt (DeleteAll i) r = (\<lambda>k. if fst k = i then None else r k)"
| "apply_stmt CreateSchema r = r"
| "apply_stmt CreateTable r = r"

subsection \<open>The state\<close>

text \<open>
  \<open>id_src\<close> and \<open>ddls\<close> are the fields \<open>id\<close> and \<open>ddls\<close> of \<open>Storage\<close>. A Go map is an
  association list read with \<open>map_of\<close>; its order is the order in which a \<open>range\<close>
  statement visits it, which Go leaves open, so a statement about every state is a
  statement about every order. \<open>infos\<close> and \<open>arrays\<close> are the Go heap (structs and
  backing arrays) with their allocation counters. \<open>rows\<close> is the table behind
  \<open>dbConn\<close>; \<open>faults\<close> lists the answers the connection gives to the coming statements
  (\<open>Some e\<close>: the statement fails with \<open>e\<close> and changes nothing; an exhausted list: every
  statement succeeds). \<open>events\<close> records lock operations and database calls in order.
\<close>

record Storage =
  id_src :: string
  ddls :: "(string \<times> (string \<times> addr) list) list"
  infos :: "addr \<Rightarrow> GhostDDLInfo"
  arrays :: "addr \<Rightarrow> string list"
  next_info :: addr
  next_array :: addr
  rows :: "key \<Rightarrow> string option"
  faults :: "error option list"
  events :: "event list"

definition emit :: "event \<Rightarrow> Storage \<Rightarrow> Storage" where
  "emit ev s = s\<lparr>events := events s @ [ev]\<rparr>"

text \<open>\<open>NewOnlineDDLStorage\<close>: an empty map; nothing is allocated, nothing is stored.\<close>

definition NewOnlineDDLStorage :: "string \<Rightarrow> Storage" where
  "NewOnlineDDLStorage sourceID =
     \<lparr>id_src = sourceID, ddls = [],
      infos = (\<lambda>_. \<lparr>Schema = [], Table = [], DDLs = nil_slice\<rparr>),
      arrays = (\<lambda>_. []), next_info = 0, next_array = 0,
      rows = (\<lambda>_. None), faults = [], events = []\<rparr>"

text \<open>\<open>s.Lock(); defer s.Unlock()\<close> and \<open>s.RLock(); defer s.RUnlock()\<close> around a body.\<close>

definition with_Lock :: "(Storage \<Rightarrow> 'a \<times> Storage) \<Rightarrow> Storage \<Rightarrow> 'a \<times> Storage" where
  "with_Lock body s = (case body (emit Lock s) of (r, s') \<Rightarrow> (r, emit Unlock s'))"

definition with_RLock :: "(Storage \<Rightarrow> 'a \<times> Storage) \<Rightarrow> Storage \<Rightarrow> 'a \<times> Storage" where
  "with_RLock body s = (case body (emit RLock s) of (r, s') \<Rightarrow> (r, emit RUnlock s'))"

text \<open>\<open>s.dbConn.ExecuteSQL\<close> with one statement.\<close>

definition ExecuteSQL :: "Storage \<Rightarrow> stmt \<Rightarrow> error option \<times> Storage" where
  "ExecuteSQL s q =
     (case faults s of
        Some e # fs \<Rightarrow> (Some e, emit (Exec q (Some e)) (s\<lparr>faults := fs\<rparr>))
      | None # fs \<Rightarrow> (None, emit (Exec q None) (s\<lparr>rows := apply_stmt q (rows s), faults := fs\<rparr>))
      | [] \<Rightarrow> (None, emit (Exec q None) (s\<lparr>rows := apply_stmt q (rows s)\<rparr>)))"

subsection \<open>Reading and growing a slice\<close>

definition elems :: "Storage \<Rightarrow> slice \<Rightarrow> string list" where
  "elems s sl = take (len sl) (arrays s (ptr sl))"

text \<open>
  Go's \<open>append(sl, x)\<close>: within the capacity the element is written into the shared
  backing array; otherwise a new array is allocated, large enough, and the elements
  are copied.
\<close>

definition append_go :: "go_env \<Rightarrow> Storage \<Rightarrow> slice \<Rightarrow> string \<Rightarrow> slice \<times> Storage" where
  "append_go E s sl x =
     (if len sl < cap sl then
        (sl\<lparr>len := len sl + 1\<rparr>,
         s\<lparr>arrays := (arrays s)(ptr sl := (arrays s (ptr sl))[len sl := x])\<rparr>)
      else
        (let c = max (growslice E (cap sl)) (len sl + 1); a = next_array s in
         (\<lparr>ptr = a, len = len sl + 1, cap = c\<rparr>,
          s\<lparr>arrays := (arrays s)(a := elems s sl @ [x] @ replicate (c - len sl - 1) []),
            next_array := a + 1\<rparr>)))"

definition contents_of :: "Storage \<Rightarrow> addr \<Rightarrow> contents" where
  "contents_of s p = (Schema (infos s p), Table (infos s p), elems s (DDLs (infos s p)))"

text \<open>\<open>new(GhostDDLInfo)\<close> / \<open>&GhostDDLInfo{...}\<close>: a struct at a fresh address.\<close>

definition new_info :: "Storage \<Rightarrow> GhostDDLInfo \<Rightarrow> addr \<times> Storage" where
  "new_info s v = (next_info s, s\<lparr>infos := (infos s)(next_info s := v), next_info := next_info s + 1\<rparr>)"

subsection \<open>Map accesses\<close>

text \<open>\<open>s.ddls[schema]\<close>; a missing key reads as the nil map, which has no entry.\<close>

definition mSchema_of :: "Storage \<Rightarrow> string \<Rightarrow> (string \<times> addr) list" where
  "mSchema_of s schema = (case map_of (ddls s) schema of None \<Rightarrow> [] | Some m \<Rightarrow> m)"

text \<open>\<open>mSchema[table] = p\<close> and \<open>delete(mSchema, table)\<close> for \<open>mSchema = s.ddls[schema]\<close>:
  a Go map is a reference, so the write is seen through \<open>s.ddls\<close>.\<close>

definition map_store :: "Storage \<Rightarrow> string \<Rightarrow> string \<Rightarrow> addr \<Rightarrow> Storage" where
  "map_store s schema table p =
     s\<lparr>ddls := AList.update schema (AList.update table p (mSchema_of s schema)) (ddls s)\<rparr>"

definition map_delete :: "Storage \<Rightarrow> string \<Rightarrow> string \<Rightarrow> Storage" where
  "map_delete s schema table =
     s\<lparr>ddls := AList.update schema (AList.delete table (mSchema_of s schema)) (ddls s)\<rparr>"

text \<open>The pointer kept under a key, and the struct it points to.\<close>

definition lookup :: "Storage \<Rightarrow> string \<Rightarrow> string \<Rightarrow> addr option" where
  "lookup s schema table =
     (case map_of (ddls s) schema of None \<Rightarrow> None | Some m \<Rightarrow> map_of m table)"

definition record_at :: "Storage \<Rightarrow> string \<Rightarrow> string \<Rightarrow> contents option" where
  "record_at s schema table = map_option (contents_of s) (lookup s schema table)"

subsection \<open>Get\<close>

text \<open>\<open>Load\<close> and \<open>Save\<close> put a map under every schema key and a pointer to a struct under
  every table key, so the tests \<open>mSchema == nil\<close> and \<open>mSchema[ghostTable] == nil\<close> of the
  source read "no entry". The result is the address of the clone, or \<open>None\<close> for nil.\<close>

definition Get :: "Storage \<Rightarrow> string \<Rightarrow> string \<Rightarrow> addr option \<times> Storage" where
  "Get s0 ghostSchema ghostTable =
     with_RLock (\<lambda>s.
       case map_of (ddls s) ghostSchema of
         None \<Rightarrow> (None, s)
       | Some mSchema \<Rightarrow>
           (case map_of mSchema ghostTable of
              None \<Rightarrow> (None, s)
            | Some p \<Rightarrow>
                (case new_info s (infos s p) of (clone, s') \<Rightarrow> (Some clone, s')))) s0"

subsection \<open>Save and saveToDB\<close>

definition saveToDB :: "go_env \<Rightarrow> Storage \<Rightarrow> string \<Rightarrow> string \<Rightarrow> addr \<Rightarrow> error option \<times> Storage" where
  "saveToDB E s ghostSchema ghostTable ddl =
     (case json_Marshal E (contents_of s ddl) of
        Inl err \<Rightarrow> (Some (Delegate_InvalidMeta err), s)
      | Inr ddlsBytes \<Rightarrow>
          (case ExecuteSQL s (Replace (id_src s) ghostSchema ghostTable ddlsBytes) of
             (err, s') \<Rightarrow> (WithScope err ScopeDownstream, s')))"

text \<open>The end of \<open>Save\<close>: \<open>info.DDLs = append(info.DDLs, ddl)\<close>, then \<open>saveToDB\<close>, whose
  error is scoped once more.\<close>

definition append_and_save ::
  "go_env \<Rightarrow> Storage \<Rightarrow> string \<Rightarrow> string \<Rightarrow> addr \<Rightarrow> string \<Rightarrow> error option \<times> Storage" where
  "append_and_save E s ghostSchema ghostTable info ddl =
     (case append_go E s (DDLs (infos s info)) ddl of
        (d', s') \<Rightarrow>
          (case saveToDB E (s'\<lparr>infos := (infos s')(info := (infos s' info)\<lparr>DDLs := d'\<rparr>)\<rparr>)
                  ghostSchema ghostTable info of
             (err, s'') \<Rightarrow> (WithScope err ScopeDownstream, s'')))"

text \<open>The body of \<open>Save\<close> between \<open>Lock\<close> and \<open>Unlock\<close>. The warning it logs on a duplicate
  is not modelled, nor is the failpoint of \<open>saveToDB\<close>, which only test builds arm.\<close>

definition Save_locked ::
  "go_env \<Rightarrow> Storage \<Rightarrow> string \<Rightarrow> string \<Rightarrow> string \<Rightarrow> string \<Rightarrow> string \<Rightarrow> error option \<times> Storage" where
  "Save_locked E s ghostSchema ghostTable realSchema realTable ddl =
     (let s1 = (case map_of (ddls s) ghostSchema of
                  Some m \<Rightarrow> s
                | None \<Rightarrow> s\<lparr>ddls := AList.update ghostSchema [] (ddls s)\<rparr>);
          (info, s2) = (case map_of (mSchema_of s1 ghostSchema) ghostTable of
                          Some p \<Rightarrow> (p, s1)
                        | None \<Rightarrow>
                            (case new_info s1 \<lparr>Schema = realSchema, Table = realTable, DDLs = nil_slice\<rparr> of
                               (p, s') \<Rightarrow> (p, map_store s' ghostSchema ghostTable p)));
          d = DDLs (infos s2 info)
      in if len d \<noteq> 0 \<and> arrays s2 (ptr d) ! (len d - 1) = ddl then (None, s2)
         else append_and_save E s2 ghostSchema ghostTable info ddl)"

definition Save ::
  "go_env \<Rightarrow> Storage \<Rightarrow> string \<Rightarrow> string \<Rightarrow> string \<Rightarrow> string \<Rightarrow> string \<Rightarrow> error option \<times> Storage" where
  "Save E s ghostSchema ghostTable realSchema realTable ddl =
     with_Lock (\<lambda>s'. Save_locked E s' ghostSchema ghostTable realSchema realTable ddl) s"

subsection \<open>Delete and Clear\<close>

definition delete :: "Storage \<Rightarrow> string \<Rightarrow> string \<Rightarrow> error option \<times> Storage" where
  "delete s ghostSchema ghostTable =
     (case map_of (ddls s) ghostSchema of
        None \<Rightarrow> (None, s)
      | Some mSchema \<Rightarrow>
          (case ExecuteSQL s (DeleteRow (id_src s) ghostSchema ghostTable) of
             (Some err, s') \<Rightarrow> (WithScope (Some err) ScopeDownstream, s')
           | (None, s') \<Rightarrow> (None, map_delete s' ghostSchema ghostTable)))"

definition Delete :: "Storage \<Rightarrow> string \<Rightarrow> string \<Rightarrow> error option \<times> Storage" where
  "Delete s ghostSchema ghostTable = with_Lock (\<lambda>s'. delete s' ghostSchema ghostTable) s"

definition Clear :: "Storage \<Rightarrow> error option \<times> Storage" where
  "Clear s0 =
     with_Lock (\<lambda>s.
       case ExecuteSQL s (DeleteAll (id_src s)) of
         (Some err, s') \<Rightarrow> (WithScope (Some err) ScopeDownstream, s')
       | (None, s') \<Rightarrow> (None, s'\<lparr>ddls := []\<rparr>)) s0"

subsection \<open>Load and Init\<close>

text \<open>
  What \<open>QuerySQL\<close> and the row cursor deliver to \<open>Load\<close>: the query fails, or the
  cursor yields rows, each scanned or failing to scan, and ends with \<open>rows.Err()\<close>.
\<close>

datatype scan = ScanError error | Scanned string string string

datatype query_result = QueryFailed error | Cursor "scan list" "error option"

text \<open>\<open>json.Unmarshal([]byte(ddls), p)\<close> for a zero struct at \<open>p\<close>: the decoded elements
  are put in a new array.\<close>

definition Unmarshal_into :: "go_env \<Rightarrow> Storage \<Rightarrow> string \<Rightarrow> addr \<Rightarrow> error option \<times> Storage" where
  "Unmarshal_into E s data p =
     (case json_Unmarshal E data of
        (err, sch, tbl, ds) \<Rightarrow>
          (err, s\<lparr>arrays := (arrays s)(next_array s := ds), next_array := next_array s + 1,
                 infos := (infos s)(p := \<lparr>Schema = sch, Table = tbl,
                            DDLs = \<lparr>ptr = next_array s, len = length ds, cap = length ds\<rparr>\<rparr>)\<rparr>))"

text \<open>One turn of the loop \<open>for rows.Next()\<close> on a scanned row, up to the result of
  \<open>json.Unmarshal\<close>: the schema's map is made if missing, a zero struct is stored under
  the key, and the payload is decoded into it.\<close>

definition Load_row :: "go_env \<Rightarrow> Storage \<Rightarrow> string \<Rightarrow> string \<Rightarrow> string \<Rightarrow> error option \<times> Storage" where
  "Load_row E s schema table ddls_text =
     (let s1 = (case map_of (ddls s) schema of
                  Some m \<Rightarrow> s
                | None \<Rightarrow> s\<lparr>ddls := AList.update schema [] (ddls s)\<rparr>)
      in case new_info s1 \<lparr>Schema = [], Table = [], DDLs = nil_slice\<rparr> of
           (p, s2) \<Rightarrow> Unmarshal_into E (map_store s2 schema table p) ddls_text p)"

text \<open>The loop; \<open>Some err\<close> is a return from inside the loop. The line it logs for a
  loaded row and \<open>defer rows.Close()\<close> touch nothing of the store and are left out.\<close>

fun Load_rows :: "go_env \<Rightarrow> Storage \<Rightarrow> scan list \<Rightarrow> error option \<times> Storage" where
  "Load_rows E s [] = (None, s)"
| "Load_rows E s (ScanError err # rest) =
     (WithScope (DBErrorAdapt (Some err)) ScopeDownstream, s)"
| "Load_rows E s (Scanned schema table ddls_text # rest) =
     (case Load_row E s schema table ddls_text of
        (Some err, s') \<Rightarrow> (Some (Delegate_InvalidMeta err), s')
      | (None, s') \<Rightarrow> Load_rows E s' rest)"

definition Load :: "go_env \<Rightarrow> Storage \<Rightarrow> query_result \<Rightarrow> error option \<times> Storage" where
  "Load E s0 qr =
     with_Lock (\<lambda>s.
       case qr of
         QueryFailed err \<Rightarrow>
           (WithScope (Some err) ScopeDownstream, emit (Query (id_src s) (Some err)) s)
       | Cursor scans rows_err \<Rightarrow>
           (case Load_rows E (emit (Query (id_src s) None) s) scans of
              (Some err, s') \<Rightarrow> (Some err, s')
            | (None, s') \<Rightarrow> (WithScope (DBErrorAdapt rows_err) ScopeDownstream, s'))) s0"

definition createSchema :: "Storage \<Rightarrow> error option \<times> Storage" where
  "createSchema s = (case ExecuteSQL s CreateSchema of (err, s') \<Rightarrow> (WithScope err ScopeDownstream, s'))"

definition createTable :: "Storage \<Rightarrow> error option \<times> Storage" where
  "createTable s = (case ExecuteSQL s CreateTable of (err, s') \<Rightarrow> (WithScope err ScopeDownstream, s'))"

definition prepare :: "Storage \<Rightarrow> error option \<times> Storage" where
  "prepare s = (case createSchema s of (Some err, s') \<Rightarrow> (Some err, s') | (None, s') \<Rightarrow> createTable s')"

text \<open>\<open>Init\<close>; \<open>createConns\<close> is the error that \<open>dbconn.CreateConns\<close> returns.\<close>

definition Init :: "go_env \<Rightarrow> Storage \<Rightarrow> error option \<Rightarrow> query_result \<Rightarrow> error option \<times> Storage" where
  "Init E s createConns qr =
     (case createConns of
        Some err \<Rightarrow> (WithScope (Some err) ScopeDownstream, s)
      | None \<Rightarrow>
          (case prepare s of
             (Some err, s') \<Rightarrow> (Some err, s')
           | (None, s') \<Rightarrow> Load E s' qr))"

subsection \<open>ResetConn and Close\<close>

text \<open>\<open>ResetConn\<close> returns what \<open>s.dbConn.ResetConn\<close> returns, here \<open>res\<close>.\<close>

definition ResetConn :: "Storage \<Rightarrow> error option \<Rightarrow> error option \<times> Storage" where
  "ResetConn s res = (res, emit (ResetConnCall res) s)"

definition Close :: "Storage \<Rightarrow> unit \<times> Storage" where
  "Close s0 = with_Lock (\<lambda>s. ((), emit CloseBaseDB s)) s0"

subsection \<open>CheckAndUpdate\<close>

text \<open>The body of \<open>if tableChange { ... }\<close>: the struct gets its new \<open>Table\<close>, is written
  under the new key, and the old key is deleted; \<open>Some err\<close> is a return from the
  function.\<close>

definition migrate ::
  "go_env \<Rightarrow> (string \<Rightarrow> string) \<Rightarrow> Storage \<Rightarrow> string \<Rightarrow> string \<Rightarrow> string \<Rightarrow> string \<Rightarrow> addr \<Rightarrow>
   error option \<times> Storage" where
  "migrate E realNameFn s schema tbl realSchema realTbl ddlInfos =
     (case saveToDB E (s\<lparr>infos := (infos s)(ddlInfos := (infos s ddlInfos)\<lparr>Table := realNameFn realTbl\<rparr>)\<rparr>)
             realSchema realTbl ddlInfos of
        (Some err, s2) \<Rightarrow> (Some err, s2)
      | (None, s2) \<Rightarrow> delete s2 schema tbl)"

text \<open>The inner loop \<open>for tbl, ddlInfos := range tblDDLInfos\<close>, over the entries that the
  map of the schema has when the loop starts; the loop removes the entry it is at and
  no other, so these are the entries it visits.\<close>

fun range_tables ::
  "go_env \<Rightarrow> (string \<Rightarrow> string) \<Rightarrow> string \<Rightarrow> string \<Rightarrow> bool \<Rightarrow> (string \<Rightarrow> string option) \<Rightarrow>
   Storage \<Rightarrow> (string \<times> addr) list \<Rightarrow> error option \<times> Storage" where
  "range_tables E realNameFn schema realSchema hasChange tblMap s [] = (None, s)"
| "range_tables E realNameFn schema realSchema hasChange tblMap s ((tbl, ddlInfos) # rest) =
     (case (case tblMap tbl of Some r \<Rightarrow> (r, True) | None \<Rightarrow> (tbl, hasChange)) of
        (realTbl, tableChange) \<Rightarrow>
          if tableChange then
            (case migrate E realNameFn s schema tbl realSchema realTbl ddlInfos of
               (Some err, s') \<Rightarrow> (Some err, s')
             | (None, s') \<Rightarrow>
                 range_tables E realNameFn schema realSchema hasChange tblMap s' rest)
          else range_tables E realNameFn schema realSchema hasChange tblMap s rest)"

text \<open>The outer loop \<open>for schema, tblDDLInfos := range s.ddls\<close> over the keys of \<open>s.ddls\<close>,
  which the loop does not change; \<open>tblDDLInfos\<close> is the map kept under the key.\<close>

fun range_schemas ::
  "go_env \<Rightarrow> (string \<Rightarrow> string) \<Rightarrow> (string \<Rightarrow> string option) \<Rightarrow>
   (string \<Rightarrow> (string \<Rightarrow> string option) option) \<Rightarrow>
   Storage \<Rightarrow> string list \<Rightarrow> string list \<Rightarrow> error option \<times> string list \<times> Storage" where
  "range_schemas E realNameFn schemaMap tablesMap s changedSchemas [] = (None, changedSchemas, s)"
| "range_schemas E realNameFn schemaMap tablesMap s changedSchemas (schema # rest) =
     (case (case schemaMap schema of
              Some r \<Rightarrow> (r, True, changedSchemas @ [schema])
            | None \<Rightarrow> (schema, False, changedSchemas)) of
        (realSchema, hasChange, changedSchemas') \<Rightarrow>
          (case range_tables E realNameFn schema realSchema hasChange
                  (case tablesMap schema of Some m \<Rightarrow> m | None \<Rightarrow> Map.empty)
                  s (mSchema_of s schema) of
             (Some err, s') \<Rightarrow> (Some err, changedSchemas', s')
           | (None, s') \<Rightarrow>
               range_schemas E realNameFn schemaMap tablesMap s' changedSchemas' rest))"

text \<open>The loop \<open>for _, schema := range changedSchemas\<close>; a key missing from \<open>schemaMap\<close>
  reads as the empty string.\<close>

fun rekey :: "(string \<Rightarrow> string option) \<Rightarrow> Storage \<Rightarrow> string list \<Rightarrow> Storage" where
  "rekey schemaMap s [] = s"
| "rekey schemaMap s (schema # rest) =
     rekey schemaMap
       (s\<lparr>ddls := AList.delete schema
            (AList.update (case schemaMap schema of Some r \<Rightarrow> r | None \<Rightarrow> [])
               (mSchema_of s schema) (ddls s))\<rparr>)
       rest"

definition CheckAndUpdate ::
  "go_env \<Rightarrow> Storage \<Rightarrow> (string \<Rightarrow> string option) \<Rightarrow>
   (string \<Rightarrow> (string \<Rightarrow> string option) option) \<Rightarrow> (string \<Rightarrow> string) \<Rightarrow> error option \<times> Storage" where
  "CheckAndUpdate E s0 schemaMap tablesMap realNameFn =
     with_Lock (\<lambda>s.
       case range_schemas E realNameFn schemaMap tablesMap s [] (map fst (ddls s)) of
         (Some err, changedSchemas, s') \<Rightarrow> (Some err, s')
       | (None, changedSchemas, s') \<Rightarrow> (None, rekey schemaMap s' changedSchemas)) s0"

section \<open>Vocabulary of the properties\<close>

subsection \<open>The heap discipline\<close>

text \<open>A slice lies within its backing array.\<close>

definition wf_slice :: "Storage \<Rightarrow> slice \<Rightarrow> bool" where
  "wf_slice s sl \<longleftrightarrow> len sl \<le> cap sl \<and> cap sl \<le> length (arrays s (ptr sl))"

definition wf_key :: "Storage \<Rightarrow> string \<Rightarrow> string \<Rightarrow> bool" where
  "wf_key s g t = (case lookup s g t of None \<Rightarrow> True | Some p \<Rightarrow> wf_slice s (DDLs (infos s p)))"

text \<open>
  What Go's allocator and the operations keep true of the structs the map points to:
  each was allocated, its slice lies within an array that was allocated, and two keys
  share neither a struct nor a backing array. It holds of the new store and every
  operation keeps it (lemmas \<open>heap_ok_New\<close> to \<open>CheckAndUpdate_heap_ok\<close>).
\<close>

definition heap_ok :: "Storage \<Rightarrow> bool" where
  "heap_ok s \<longleftrightarrow>
     (\<forall>g t p. lookup s g t = Some p \<longrightarrow>
        p < next_info s \<and> wf_slice s (DDLs (infos s p))
        \<and> (cap (DDLs (infos s p)) = 0 \<or> ptr (DDLs (infos s p)) < next_array s))
     \<and> (\<forall>g t g' t' p p'. lookup s g t = Some p \<and> lookup s g' t' = Some p' \<and> (g, t) \<noteq> (g', t') \<longrightarrow>
          p \<noteq> p'
          \<and> (cap (DDLs (infos s p)) = 0 \<or> cap (DDLs (infos s p')) = 0
              \<or> ptr (DDLs (infos s p)) \<noteq> ptr (DDLs (infos s p'))))"

subsection \<open>What a key holds\<close>

text \<open>The DDLs of a key, its real schema and table, and whether \<open>ddl\<close> is its last DDL.\<close>

definition DDLs_at :: "Storage \<Rightarrow> string \<Rightarrow> string \<Rightarrow> string list" where
  "DDLs_at s g t = (case record_at s g t of None \<Rightarrow> [] | Some (sch, tbl, ds) \<Rightarrow> ds)"

definition identity_at :: "Storage \<Rightarrow> string \<Rightarrow> string \<Rightarrow> (string \<times> string) option" where
  "identity_at s g t = (case record_at s g t of None \<Rightarrow> None | Some (sch, tbl, ds) \<Rightarrow> Some (sch, tbl))"

definition is_dup :: "Storage \<Rightarrow> string \<Rightarrow> string \<Rightarrow> string \<Rightarrow> bool" where
  "is_dup s g t ddl = (case record_at s g t of None \<Rightarrow> False | Some (sch, tbl, ds) \<Rightarrow> ds \<noteq> [] \<and> last ds = ddl)"

text \<open>The state in which \<open>Save\<close> reaches its duplicate check on a key that had no Record:
  the schema's map exists and the key points to a new struct with no DDL.\<close>

definition fresh_entry :: "Storage \<Rightarrow> string \<Rightarrow> string \<Rightarrow> string \<Rightarrow> string \<Rightarrow> Storage" where
  "fresh_entry s g t rs rt =
     map_store
       ((case map_of (ddls s) g of Some m \<Rightarrow> s | None \<Rightarrow> s\<lparr>ddls := AList.update g [] (ddls s)\<rparr>)
          \<lparr>infos := (infos s)(next_info s := \<lparr>Schema = rs, Table = rt, DDLs = nil_slice\<rparr>),
            next_info := next_info s + 1\<rparr>) g t (next_info s)"

text \<open>A caller that calls \<open>Save\<close> on one key once for each (realSchema, realTable, ddl) of a list.\<close>

fun Save_each :: "go_env \<Rightarrow> Storage \<Rightarrow> string \<Rightarrow> string \<Rightarrow> (string \<times> string \<times> string) list \<Rightarrow> Storage" where
  "Save_each E s g t [] = s"
| "Save_each E s g t ((rs, rt, ddl) # calls) = Save_each E (snd (Save E s g t rs rt ddl)) g t calls"

subsection \<open>What a caller can do with the struct that Get returns\<close>

text \<open>\<open>*c = v\<close>, which covers an assignment to any field, and \<open>sl[i] = v\<close>, which panics
  (\<open>None\<close>) when \<open>i\<close> is out of range.\<close>

definition assign_struct :: "Storage \<Rightarrow> addr \<Rightarrow> GhostDDLInfo \<Rightarrow> Storage" where
  "assign_struct s c v = s\<lparr>infos := (infos s)(c := v)\<rparr>"

definition assign_elem :: "Storage \<Rightarrow> slice \<Rightarrow> nat \<Rightarrow> string \<Rightarrow> Storage option" where
  "assign_elem s sl i v =
     (if i < len sl then Some (s\<lparr>arrays := (arrays s)(ptr sl := (arrays s (ptr sl))[i := v])\<rparr>)
      else None)"

subsection \<open>Memory and durable rows agree\<close>

text \<open>Every entry in memory has a row of the source with its serialized Record, and
  every other key of the source has no row.\<close>

definition mirrored :: "go_env \<Rightarrow> Storage \<Rightarrow> bool" where
  "mirrored E s \<longleftrightarrow>
     (\<forall>g t. case lookup s g t of
              None \<Rightarrow> rows s (id_src s, g, t) = None
            | Some p \<Rightarrow> (\<exists>payload. json_Marshal E (contents_of s p) = Inr payload
                            \<and> rows s (id_src s, g, t) = Some payload))"

subsection \<open>Errors and rows of Load\<close>

text \<open>A row of the cursor that scans and whose payload decodes; the two kinds of error.\<close>

fun decodes :: "go_env \<Rightarrow> scan \<Rightarrow> bool" where
  "decodes E (ScanError e) = False"
| "decodes E (Scanned schema table ddls_text) = (fst (json_Unmarshal E ddls_text) = None)"

fun is_downstream :: "error \<Rightarrow> bool" where
  "is_downstream (Scoped ScopeDownstream e) = True"
| "is_downstream e = False"

fun is_invalid_meta :: "error \<Rightarrow> bool" where
  "is_invalid_meta (ErrSyncerUnitOnlineDDLInvalidMeta e) = True"
| "is_invalid_meta e = False"

subsection \<open>Events of an operation\<close>

fun is_lock_event :: "event \<Rightarrow> bool" where
  "is_lock_event Lock = True"
| "is_lock_event Unlock = True"
| "is_lock_event RLock = True"
| "is_lock_event RUnlock = True"
| "is_lock_event e = False"

text \<open>The events that lead from \<open>s\<close> to \<open>s'\<close>.\<close>

definition new_events :: "Storage \<Rightarrow> Storage \<Rightarrow> event list" where
  "new_events s s' = drop (length (events s)) (events s')"

text \<open>The step from \<open>s\<close> to \<open>s'\<close> starts by acquiring the lock, ends by releasing it, and
  has no lock operation in between.\<close>

definition holds_lock :: "event \<Rightarrow> event \<Rightarrow> Storage \<Rightarrow> Storage \<Rightarrow> bool" where
  "holds_lock acq rel s s' \<longleftrightarrow>
     take (length (events s)) (events s') = events s
     \<and> 2 \<le> length (new_events s s')
     \<and> hd (new_events s s') = acq \<and> last (new_events s s') = rel
     \<and> list_all (\<lambda>e. \<not> is_lock_event e) (butlast (tl (new_events s s')))"

text \<open>The step from \<open>s\<close> to \<open>s'\<close> has no lock operation.\<close>

definition quiet :: "Storage \<Rightarrow> Storage \<Rightarrow> bool" where
  "quiet s s' \<longleftrightarrow> (\<exists>evs. events s' = events s @ evs \<and> list_all (\<lambda>e. \<not> is_lock_event e) evs)"

subsection \<open>Write before delete\<close>

text \<open>The key that \<open>CheckAndUpdate\<close> moves the Record of (g, t) to.\<close>

definition target_schema :: "(string \<Rightarrow> string option) \<Rightarrow> string \<Rightarrow> string" where
  "target_schema schemaMap g = (case schemaMap g of Some r \<Rightarrow> r | None \<Rightarrow> g)"

definition target_table :: "(string \<Rightarrow> (string \<Rightarrow> string option) option) \<Rightarrow> string \<Rightarrow> string \<Rightarrow> string" where
  "target_table tablesMap g t =
     (case tablesMap g of None \<Rightarrow> t | Some m \<Rightarrow> (case m t of Some r \<Rightarrow> r | None \<Rightarrow> t))"

text \<open>\<open>payload\<close> is the serialized Record that \<open>s0\<close> holds under (g, t), with its \<open>Table\<close> set
  to the real name of the new table \<open>t'\<close>.\<close>

definition migrated_payload ::
  "go_env \<Rightarrow> (string \<Rightarrow> string) \<Rightarrow> Storage \<Rightarrow> string \<Rightarrow> string \<Rightarrow> string \<Rightarrow> string \<Rightarrow> bool" where
  "migrated_payload E realNameFn s0 g t t' payload =
     list_ex (\<lambda>(tbl, p). tbl = t \<and>
        json_Marshal E (Schema (infos s0 p), realNameFn t', elems s0 (DDLs (infos s0 p))) = Inr payload)
       (mSchema_of s0 g)"

text \<open>The event before is a \<open>REPLACE\<close> that succeeded, on the given key, with a payload
  that \<open>ok\<close> accepts.\<close>

fun written_for :: "(string \<Rightarrow> bool) \<Rightarrow> string \<Rightarrow> string \<Rightarrow> string \<Rightarrow> event option \<Rightarrow> bool" where
  "written_for ok i g t (Some (Exec (Replace i' g' t' payload) None)) = (i' = i \<and> g' = g \<and> t' = t \<and> ok payload)"
| "written_for ok i g t prev = False"

text \<open>In a sequence of events that follows the event \<open>prev\<close>, every \<open>DELETE\<close> of a row
  (g, t) comes directly after a successful \<open>REPLACE\<close> of the row (\<open>ts g\<close>, \<open>tt g t\<close>) with a
  payload that \<open>ex g t\<close> accepts.\<close>

fun upsert_before_delete ::
  "(string \<Rightarrow> string) \<Rightarrow> (string \<Rightarrow> string \<Rightarrow> string) \<Rightarrow> (string \<Rightarrow> string \<Rightarrow> string \<Rightarrow> bool) \<Rightarrow>
   event option \<Rightarrow> event list \<Rightarrow> bool" where
  "upsert_before_delete ts tt ex prev [] = True"
| "upsert_before_delete ts tt ex prev (Exec (DeleteRow i g t) r # rest) =
     (written_for (ex g t) i (ts g) (tt g t) prev
      \<and> upsert_before_delete ts tt ex (Some (Exec (DeleteRow i g t) r)) rest)"
| "upsert_before_delete ts tt ex prev (e # rest) = upsert_before_delete ts tt ex (Some e) rest"

text \<open>Invariants of the loops of \<open>CheckAndUpdate\<close>: the loops change no array, no
  \<open>Schema\<close> and no \<open>DDLs\<close>, and add no entry to a map; their events are as above.\<close>

definition same_records :: "Storage \<Rightarrow> Storage \<Rightarrow> bool" where
  "same_records s0 s \<longleftrightarrow>
     arrays s = arrays s0 \<and> id_src s = id_src s0
     \<and> (\<forall>p. Schema (infos s p) = Schema (infos s0 p) \<and> DDLs (infos s p) = DDLs (infos s0 p))
     \<and> (\<forall>g. set (mSchema_of s g) \<subseteq> set (mSchema_of s0 g))"

definition traced ::
  "(string \<Rightarrow> string) \<Rightarrow> (string \<Rightarrow> string \<Rightarrow> string) \<Rightarrow> (string \<Rightarrow> string \<Rightarrow> string \<Rightarrow> bool) \<Rightarrow>
   Storage \<Rightarrow> Storage \<Rightarrow> Storage \<Rightarrow> bool" where
  "traced ts tt ex s0 s s' \<longleftrightarrow>
     same_records s0 s'
     \<and> (\<exists>evs. events s' = events s @ evs \<and> upsert_before_delete ts tt ex None evs
              \<and> list_all (\<lambda>e. \<not> is_lock_event e) evs)"

subsection \<open>A small run\<close>

text \<open>
  An environment to run the operations on concrete inputs: capacities double, a
  Record is serialized as \<open>schema.table:\<close> followed by its DDLs, and the payload \<open>{\<close>
  does not decode. \<open>example_store\<close> is the new store of the source \<open>mysql-01\<close> after one
  \<open>Save\<close>.
\<close>

definition example_env :: go_env where
  "example_env =
     \<lparr>growslice = (\<lambda>c. 2 * c),
      json_Marshal = (\<lambda>(sch, tbl, ds). Inr (sch @ ''.'' @ tbl @ '':'' @ concat ds)),
      json_Unmarshal = (\<lambda>d. if d = ''{'' then (Some (Cause ''unexpected end of JSON input''), [], [], [])
                              else (None, [], [], [d]))\<rparr>"

definition example_store :: Storage where
  "example_store =
     snd (Save example_env (NewOnlineDDLStorage ''mysql-01'') ''g1'' ''t1'' ''db'' ''tbl'' ''ALTER TABLE t1 ADD c INT'')"

section \<open>Lemmas\<close>

lemma take_Suc_update: "n < length xs \<Longrightarrow> take (Suc n) (xs[n := x]) = take n xs @ [x]"
  by (simp add: take_Suc_conv_app_nth)

lemma elems_append_go:
  assumes "wf_slice s sl" and "append_go E s sl x = (sl', s')"
  shows "elems s' sl' = elems s sl @ [x]" and "wf_slice s' sl'"
  using assms
  by (auto simp: append_go_def wf_slice_def elems_def Let_def take_Suc_update split: if_splits)

lemma append_go_frame:
  assumes "append_go E s sl x = (sl', s')"
  shows "ddls s' = ddls s" "infos s' = infos s" "rows s' = rows s" "faults s' = faults s"
    "events s' = events s" "id_src s' = id_src s" "next_info s' = next_info s"
  using assms by (auto simp: append_go_def Let_def split: if_splits)

lemma ExecuteSQL_frame:
  assumes "ExecuteSQL s q = (err, s')"
  shows "ddls s' = ddls s" "infos s' = infos s" "arrays s' = arrays s" "id_src s' = id_src s"
    "next_info s' = next_info s" "next_array s' = next_array s"
    "events s' = events s @ [Exec q err]"
    "err \<noteq> None \<Longrightarrow> rows s' = rows s"
    "err = None \<Longrightarrow> rows s' = apply_stmt q (rows s)"
  using assms by (auto simp: ExecuteSQL_def emit_def split: list.splits option.splits)

lemma saveToDB_frame:
  assumes "saveToDB E s g t p = (err, s')"
  shows "ddls s' = ddls s" "infos s' = infos s" "arrays s' = arrays s" "id_src s' = id_src s"
    "next_info s' = next_info s" "next_array s' = next_array s"
    "err \<noteq> None \<Longrightarrow> rows s' = rows s"
  using assms
  by (auto simp: saveToDB_def WithScope_def split: sum.splits prod.splits option.splits dest: ExecuteSQL_frame)

lemma lookup_map_store [simp]: "lookup (map_store s g t p) g t = Some p"
  by (simp add: lookup_def map_store_def update_conv')

lemma last_take: "0 < n \<Longrightarrow> n \<le> length xs \<Longrightarrow> last (take n xs) = xs ! (n - 1)"
  by (cases n) (simp_all add: take_Suc_conv_app_nth)

lemma last_elems: "wf_slice s d \<Longrightarrow> len d \<noteq> 0 \<Longrightarrow> last (elems s d) = arrays s (ptr d) ! (len d - 1)"
  by (simp add: elems_def wf_slice_def last_take)

lemma elems_Nil: "wf_slice s d \<Longrightarrow> elems s d = [] \<longleftrightarrow> len d = 0"
  by (auto simp: elems_def wf_slice_def)

lemma is_dup_iff:
  assumes "lookup s g t = Some p" "wf_slice s (DDLs (infos s p))"
  shows "is_dup s g t ddl \<longleftrightarrow>
     len (DDLs (infos s p)) \<noteq> 0 \<and> arrays s (ptr (DDLs (infos s p))) ! (len (DDLs (infos s p)) - 1) = ddl"
  using assms by (auto simp: is_dup_def record_at_def contents_of_def elems_Nil last_elems)

lemma Save_locked_dup:
  assumes "wf_key s g t" "is_dup s g t ddl"
  shows "Save_locked E s g t rs rt ddl = (None, s)"
proof -
  from assms(2) obtain p where p: "lookup s g t = Some p"
    by (auto simp: is_dup_def record_at_def split: option.splits)
  then obtain m where m: "map_of (ddls s) g = Some m" "map_of m t = Some p"
    by (auto simp: lookup_def split: option.splits)
  from assms p have wf: "wf_slice s (DDLs (infos s p))" by (simp add: wf_key_def)
  from is_dup_iff[OF p wf] assms(2) show ?thesis
    by (simp add: Save_locked_def m mSchema_of_def)
qed

lemma elems_arrays_cong: "arrays s' = arrays s \<Longrightarrow> elems s' sl = elems s sl"
  by (simp add: elems_def)

lemma wf_slice_arrays_cong: "arrays s' = arrays s \<Longrightarrow> wf_slice s' sl = wf_slice s sl"
  by (simp add: wf_slice_def)

lemma wf_nil_slice [simp]: "wf_slice s nil_slice"
  by (simp add: wf_slice_def nil_slice_def)

lemma elems_nil_slice [simp]: "elems s nil_slice = []"
  by (simp add: elems_def nil_slice_def)

lemma append_and_save_effect:
  assumes wf: "wf_slice s (DDLs (infos s p))"
      and run: "append_and_save E s g t p ddl = (err, s')"
  shows "ddls s' = ddls s"
    and "contents_of s' p = (Schema (infos s p), Table (infos s p), elems s (DDLs (infos s p)) @ [ddl])"
    and "wf_slice s' (DDLs (infos s' p))"
    and "err \<noteq> None \<Longrightarrow> rows s' = rows s"
    and "id_src s' = id_src s"
proof -
  obtain d' s3 where ap: "append_go E s (DDLs (infos s p)) ddl = (d', s3)"
    by (cases "append_go E s (DDLs (infos s p)) ddl")
  let ?s3' = "s3\<lparr>infos := (infos s3)(p := (infos s3 p)\<lparr>DDLs := d'\<rparr>)\<rparr>"
  obtain e4 s4 where sv: "saveToDB E ?s3' g t p = (e4, s4)"
    by (cases "saveToDB E ?s3' g t p")
  from run ap sv have res: "err = WithScope e4 ScopeDownstream" "s' = s4"
    by (simp_all add: append_and_save_def)
  note fr3 = append_go_frame[OF ap] and fr4 = saveToDB_frame[OF sv]
  note el = elems_append_go[OF wf ap]
  show "ddls s' = ddls s" using res fr3 fr4 by simp
  show "id_src s' = id_src s" using res fr3 fr4 by simp
  have inf: "infos s' p = (infos s p)\<lparr>DDLs := d'\<rparr>" using res fr3 fr4 by simp
  have arr: "arrays s' = arrays s3" using res fr4 by simp
  show "contents_of s' p = (Schema (infos s p), Table (infos s p), elems s (DDLs (infos s p)) @ [ddl])"
    using inf el(1) by (simp add: contents_of_def elems_arrays_cong[OF arr])
  show "wf_slice s' (DDLs (infos s' p))"
    using inf el(2) by (simp add: wf_slice_arrays_cong[OF arr])
  show "err \<noteq> None \<Longrightarrow> rows s' = rows s"
    using res fr4(7) fr3(3) by (cases e4) (simp_all add: WithScope_def)
qed

lemma Save_locked_existing:
  assumes "lookup s g t = Some p"
  shows "Save_locked E s g t rs rt ddl =
     (if len (DDLs (infos s p)) \<noteq> 0 \<and> arrays s (ptr (DDLs (infos s p))) ! (len (DDLs (infos s p)) - 1) = ddl
      then (None, s) else append_and_save E s g t p ddl)"
proof -
  from assms obtain m where m: "map_of (ddls s) g = Some m" "map_of m t = Some p"
    by (auto simp: lookup_def split: option.splits)
  show ?thesis
    by (simp add: Save_locked_def m mSchema_of_def append_and_save_def)
qed

lemma Save_locked_new:
  assumes "lookup s g t = None"
  shows "Save_locked E s g t rs rt ddl = append_and_save E (fresh_entry s g t rs rt) g t (next_info s) ddl"
proof (cases "map_of (ddls s) g")
  case None
  then show ?thesis
    by (simp add: Save_locked_def mSchema_of_def new_info_def append_and_save_def fresh_entry_def
        map_store_def update_conv' nil_slice_def Let_def)
next
  case (Some m)
  with assms have "map_of m t = None" by (simp add: lookup_def)
  with Some show ?thesis
    by (simp add: Save_locked_def mSchema_of_def new_info_def append_and_save_def fresh_entry_def
        map_store_def update_conv' nil_slice_def Let_def)
qed

lemma emit_fields [simp]:
  "ddls (emit ev s) = ddls s" "infos (emit ev s) = infos s" "arrays (emit ev s) = arrays s"
  "rows (emit ev s) = rows s" "faults (emit ev s) = faults s" "id_src (emit ev s) = id_src s"
  "next_info (emit ev s) = next_info s" "next_array (emit ev s) = next_array s"
  "events (emit ev s) = events s @ [ev]"
  by (simp_all add: emit_def)

lemma lookup_ddls_cong: "ddls s' = ddls s \<Longrightarrow> lookup s' g t = lookup s g t"
  by (simp add: lookup_def)

lemma contents_of_cong: "infos s' = infos s \<Longrightarrow> arrays s' = arrays s \<Longrightarrow> contents_of s' p = contents_of s p"
  by (simp add: contents_of_def elems_def)

lemma emit_heap_views [simp]:
  "contents_of (emit ev s) = contents_of s" "wf_slice (emit ev s) = wf_slice s" "elems (emit ev s) = elems s"
  by (auto simp: contents_of_def elems_def wf_slice_def fun_eq_iff)

lemma emit_views [simp]:
  "lookup (emit ev s) g t = lookup s g t"
  "record_at (emit ev s) g t = record_at s g t"
  "wf_key (emit ev s) g t = wf_key s g t"
  "is_dup (emit ev s) g t ddl = is_dup s g t ddl"
  by (simp_all add: lookup_def record_at_def wf_key_def is_dup_def cong: option.case_cong)

lemma fresh_entry_fields:
  "lookup (fresh_entry s g t rs rt) g t = Some (next_info s)"
  "infos (fresh_entry s g t rs rt) (next_info s) = \<lparr>Schema = rs, Table = rt, DDLs = nil_slice\<rparr>"
  "arrays (fresh_entry s g t rs rt) = arrays s"
  "rows (fresh_entry s g t rs rt) = rows s"
  "id_src (fresh_entry s g t rs rt) = id_src s"
  by (simp_all add: fresh_entry_def map_store_def lookup_def update_conv' split: option.splits)

lemma Save_locked_step:
  assumes wf: "wf_key s g t" and run: "Save_locked E s g t rs rt ddl = (err, s')"
  shows "wf_key s' g t"
    and "record_at s' g t =
       Some (case record_at s g t of
               None \<Rightarrow> (rs, rt, [ddl])
             | Some (sch, tbl, ds) \<Rightarrow> (sch, tbl, if ds \<noteq> [] \<and> last ds = ddl then ds else ds @ [ddl]))"
    and "err \<noteq> None \<Longrightarrow> rows s' = rows s"
    and "err \<noteq> None \<Longrightarrow> is_dup s' g t ddl"
proof -
  have "wf_key s' g t \<and> record_at s' g t =
       Some (case record_at s g t of
               None \<Rightarrow> (rs, rt, [ddl])
             | Some (sch, tbl, ds) \<Rightarrow> (sch, tbl, if ds \<noteq> [] \<and> last ds = ddl then ds else ds @ [ddl]))
     \<and> (err \<noteq> None \<longrightarrow> rows s' = rows s \<and> is_dup s' g t ddl)"
  proof (cases "lookup s g t")
    case None
    let ?f = "fresh_entry s g t rs rt" and ?p = "next_info s"
    from None run have r: "append_and_save E ?f g t ?p ddl = (err, s')"
      by (simp add: Save_locked_new)
    have wfp: "wf_slice ?f (DDLs (infos ?f ?p))" by (simp add: fresh_entry_fields)
    note eff = append_and_save_effect[OF wfp r]
    have lk: "lookup s' g t = Some ?p"
      using lookup_ddls_cong[OF eff(1)] by (simp add: fresh_entry_fields)
    from None have ra: "record_at s g t = None" by (simp add: record_at_def)
    show ?thesis using lk eff ra
      by (simp add: wf_key_def record_at_def fresh_entry_fields is_dup_def)
  next
    case (Some p)
    with wf have wfp: "wf_slice s (DDLs (infos s p))" by (simp add: wf_key_def)
    have ra: "record_at s g t = Some (contents_of s p)" using Some by (simp add: record_at_def)
    show ?thesis
    proof (cases "is_dup s g t ddl")
      case True
      from Save_locked_dup[OF wf True] run have "err = None" "s' = s" by simp_all
      with True wf ra show ?thesis
        by (auto simp: is_dup_def contents_of_def split: prod.splits)
    next
      case False
      with is_dup_iff[OF Some wfp] run have r: "append_and_save E s g t p ddl = (err, s')"
        by (auto simp: Save_locked_existing[OF Some] split: if_splits)
      note eff = append_and_save_effect[OF wfp r]
      have lk: "lookup s' g t = Some p" using lookup_ddls_cong[OF eff(1)] Some by simp
      from False ra have nd: "\<not> (elems s (DDLs (infos s p)) \<noteq> [] \<and> last (elems s (DDLs (infos s p))) = ddl)"
        by (simp add: is_dup_def contents_of_def)
      show ?thesis using lk eff ra nd
        by (auto simp: wf_key_def record_at_def contents_of_def is_dup_def)
    qed
  qed
  then show "wf_key s' g t"
    and "record_at s' g t =
       Some (case record_at s g t of
               None \<Rightarrow> (rs, rt, [ddl])
             | Some (sch, tbl, ds) \<Rightarrow> (sch, tbl, if ds \<noteq> [] \<and> last ds = ddl then ds else ds @ [ddl]))"
    and "err \<noteq> None \<Longrightarrow> rows s' = rows s"
    and "err \<noteq> None \<Longrightarrow> is_dup s' g t ddl"
    by simp_all
qed

lemma Save_unfold:
  "Save E s g t rs rt ddl =
     (fst (Save_locked E (emit Lock s) g t rs rt ddl), emit Unlock (snd (Save_locked E (emit Lock s) g t rs rt ddl)))"
  by (simp add: Save_def with_Lock_def split: prod.splits)

lemma Save_step:
  assumes wf: "wf_key s g t"
  shows "wf_key (snd (Save E s g t rs rt ddl)) g t"
    and "record_at (snd (Save E s g t rs rt ddl)) g t =
       Some (case record_at s g t of
               None \<Rightarrow> (rs, rt, [ddl])
             | Some (sch, tbl, ds) \<Rightarrow> (sch, tbl, if ds \<noteq> [] \<and> last ds = ddl then ds else ds @ [ddl]))"
    and "fst (Save E s g t rs rt ddl) \<noteq> None \<Longrightarrow> rows (snd (Save E s g t rs rt ddl)) = rows s"
    and "fst (Save E s g t rs rt ddl) \<noteq> None \<Longrightarrow> is_dup (snd (Save E s g t rs rt ddl)) g t ddl"
proof -
  obtain err s' where r: "Save_locked E (emit Lock s) g t rs rt ddl = (err, s')"
    by (cases "Save_locked E (emit Lock s) g t rs rt ddl")
  have wf': "wf_key (emit Lock s) g t" using wf by simp
  note st = Save_locked_step[OF wf' r]
  show "wf_key (snd (Save E s g t rs rt ddl)) g t" using st(1) by (simp add: Save_unfold r)
  show "record_at (snd (Save E s g t rs rt ddl)) g t =
       Some (case record_at s g t of
               None \<Rightarrow> (rs, rt, [ddl])
             | Some (sch, tbl, ds) \<Rightarrow> (sch, tbl, if ds \<noteq> [] \<and> last ds = ddl then ds else ds @ [ddl]))"
    using st(2) by (simp add: Save_unfold r)
  show "fst (Save E s g t rs rt ddl) \<noteq> None \<Longrightarrow> rows (snd (Save E s g t rs rt ddl)) = rows s"
    using st(3) by (simp add: Save_unfold r)
  show "fst (Save E s g t rs rt ddl) \<noteq> None \<Longrightarrow> is_dup (snd (Save E s g t rs rt ddl)) g t ddl"
    using st(4) by (simp add: Save_unfold r)
qed

lemma Save_dup:
  assumes "wf_key s g t" "is_dup s g t ddl"
  shows "Save E s g t rs rt ddl = (None, emit Unlock (emit Lock s))"
  using Save_locked_dup[of "emit Lock s" g t ddl E rs rt] assms by (simp add: Save_unfold)

lemma DDLs_at_Save:
  assumes "wf_key s g t"
  shows "DDLs_at (snd (Save E s g t rs rt ddl)) g t =
      (if is_dup s g t ddl then DDLs_at s g t else DDLs_at s g t @ [ddl])"
  using Save_step(2)[OF assms, of E rs rt ddl]
  by (auto simp: DDLs_at_def is_dup_def split: option.splits prod.splits)

lemma is_dup_DDLs_at: "is_dup s g t ddl \<longleftrightarrow> DDLs_at s g t \<noteq> [] \<and> last (DDLs_at s g t) = ddl"
  by (auto simp: DDLs_at_def is_dup_def split: option.splits)

lemma identity_at_Save:
  assumes "wf_key s g t"
  shows "identity_at (snd (Save E s g t rs rt ddl)) g t =
     (case identity_at s g t of None \<Rightarrow> Some (rs, rt) | Some i \<Rightarrow> Some i)"
  using Save_step(2)[OF assms, of E rs rt ddl]
  by (auto simp: identity_at_def split: option.splits prod.splits)

lemma identity_at_Save_each:
  assumes "wf_key s g t" "identity_at s g t = Some i"
  shows "identity_at (Save_each E s g t calls) g t = Some i"
  using assms
proof (induction calls arbitrary: s)
  case Nil
  then show ?case by simp
next
  case (Cons c calls)
  obtain rs rt ddl where c: "c = (rs, rt, ddl)" by (cases c)
  have "wf_key (snd (Save E s g t rs rt ddl)) g t" by (rule Save_step(1)[OF Cons.prems(1)])
  moreover have "identity_at (snd (Save E s g t rs rt ddl)) g t = Some i"
    using Cons.prems by (simp add: identity_at_Save)
  ultimately show ?case using Cons.IH by (simp add: c)
qed

lemma saveToDB_fails:
  assumes "faults s = Some e # fs"
  shows "fst (saveToDB E s g t p) \<noteq> None"
  using assms by (auto simp: saveToDB_def ExecuteSQL_def WithScope_def Delegate_InvalidMeta_def split: sum.splits)

lemma append_and_save_fails:
  assumes "faults s = Some e # fs"
  shows "fst (append_and_save E s g t p ddl) \<noteq> None"
proof -
  obtain d' s3 where ap: "append_go E s (DDLs (infos s p)) ddl = (d', s3)"
    by (cases "append_go E s (DDLs (infos s p)) ddl")
  let ?s3' = "s3\<lparr>infos := (infos s3)(p := (infos s3 p)\<lparr>DDLs := d'\<rparr>)\<rparr>"
  have "faults ?s3' = Some e # fs" using append_go_frame(4)[OF ap] assms by simp
  from saveToDB_fails[OF this, of E g t p] show ?thesis
    by (auto simp: append_and_save_def ap WithScope_def split: prod.splits option.splits)
qed

lemma fresh_entry_faults [simp]: "faults (fresh_entry s g t rs rt) = faults s"
  by (simp add: fresh_entry_def map_store_def split: option.splits)

lemma Save_fails:
  assumes wf: "wf_key s g t" and nd: "\<not> is_dup s g t ddl" and f: "faults s = Some e # fs"
  shows "fst (Save E s g t rs rt ddl) \<noteq> None"
proof (cases "lookup s g t")
  case None
  then have "Save_locked E (emit Lock s) g t rs rt ddl =
      append_and_save E (fresh_entry (emit Lock s) g t rs rt) g t (next_info s) ddl"
    using Save_locked_new[of "emit Lock s" g t E rs rt ddl] by simp
  moreover have "faults (fresh_entry (emit Lock s) g t rs rt) = Some e # fs" using f by simp
  ultimately show ?thesis using append_and_save_fails by (simp add: Save_unfold)
next
  case (Some p)
  with wf have wfp: "wf_slice s (DDLs (infos s p))" by (simp add: wf_key_def)
  from Some have lk: "lookup (emit Lock s) g t = Some p" by simp
  have "Save_locked E (emit Lock s) g t rs rt ddl = append_and_save E (emit Lock s) g t p ddl"
    using is_dup_iff[OF Some wfp, of ddl] nd by (auto simp: Save_locked_existing[OF lk])
  moreover have "faults (emit Lock s) = Some e # fs" using f by simp
  ultimately show ?thesis using append_and_save_fails by (simp add: Save_unfold)
qed

lemma fst_Load_row [simp]: "fst (Load_row E s g t d) = fst (json_Unmarshal E d)"
  by (simp add: Load_row_def Unmarshal_into_def Let_def split: prod.splits)

lemma Load_rows_decoded:
  assumes "fst (json_Unmarshal E d) = None"
  shows "Load_rows E s (Scanned g t d # rest) = Load_rows E (snd (Load_row E s g t d)) rest"
proof -
  obtain r s' where r: "Load_row E s g t d = (r, s')" by (cases "Load_row E s g t d")
  with assms fst_Load_row[of E s g t d] have "r = None" by simp
  with r show ?thesis by simp
qed

lemma Load_rows_bad:
  assumes "fst (json_Unmarshal E d) = Some e"
  shows "fst (Load_rows E s (Scanned g t d # post)) = Some (Delegate_InvalidMeta e)"
proof -
  obtain r s' where r: "Load_row E s g t d = (r, s')" by (cases "Load_row E s g t d")
  with assms fst_Load_row[of E s g t d] have "r = Some e" by simp
  with r show ?thesis by simp
qed

lemma Load_rows_good:
  "list_all (decodes E) pre \<Longrightarrow> \<exists>s'. Load_rows E s (pre @ rest) = Load_rows E s' rest"
proof (induction pre arbitrary: s)
  case Nil
  then show ?case by auto
next
  case (Cons r pre)
  then obtain g t d where r: "r = Scanned g t d" and ok: "fst (json_Unmarshal E d) = None"
    by (cases r) auto
  from Cons.prems have "list_all (decodes E) pre" by simp
  from Cons.IH[OF this] show ?case
    by (simp add: r Load_rows_decoded[OF ok] del: Load_rows.simps)
qed

lemma Load_rows_success:
  "fst (Load_rows E s scans) = None \<Longrightarrow> list_all (decodes E) scans"
proof (induction scans arbitrary: s)
  case Nil
  then show ?case by simp
next
  case (Cons r scans)
  show ?case
  proof (cases r)
    case (ScanError e)
    with Cons.prems show ?thesis by (simp add: WithScope_def DBErrorAdapt_def)
  next
    case (Scanned g t d)
    show ?thesis
    proof (cases "fst (json_Unmarshal E d)")
      case None
      with Cons Scanned show ?thesis by (simp add: Load_rows_decoded del: Load_rows.simps)
    next
      case (Some e)
      from Load_rows_bad[OF this] Cons.prems Scanned show ?thesis by simp
    qed
  qed
qed

lemma Load_rows_error_kind:
  "fst (Load_rows E s scans) = Some err \<Longrightarrow> is_downstream err \<or> is_invalid_meta err"
proof (induction scans arbitrary: s)
  case Nil
  then show ?case by simp
next
  case (Cons r scans)
  show ?case
  proof (cases r)
    case (ScanError e)
    with Cons.prems show ?thesis by (auto simp: WithScope_def DBErrorAdapt_def)
  next
    case (Scanned g t d)
    show ?thesis
    proof (cases "fst (json_Unmarshal E d)")
      case None
      with Cons Scanned show ?thesis by (simp add: Load_rows_decoded del: Load_rows.simps)
    next
      case (Some e)
      from Load_rows_bad[OF this] Cons.prems Scanned show ?thesis
        by (auto simp: Delegate_InvalidMeta_def)
    qed
  qed
qed

lemma Load_unfold_Cursor:
  "fst (Load E s (Cursor scans rows_err)) =
     (case fst (Load_rows E (emit (Query (id_src s) None) (emit Lock s)) scans) of
        Some err \<Rightarrow> Some err
      | None \<Rightarrow> WithScope (DBErrorAdapt rows_err) ScopeDownstream)"
  by (simp add: Load_def with_Lock_def split: prod.splits option.splits)

lemma quiet_refl [simp]: "quiet s s"
  by (simp add: quiet_def)

lemma quiet_trans: "quiet s s' \<Longrightarrow> quiet s' s'' \<Longrightarrow> quiet s s''"
  by (auto simp: quiet_def)

lemma quiet_events_eq: "events s' = events s \<Longrightarrow> quiet s s'"
  by (simp add: quiet_def)

lemma quiet_emit: "\<not> is_lock_event ev \<Longrightarrow> quiet s (emit ev s)"
  by (simp add: quiet_def)

lemma quiet_ExecuteSQL: "quiet s (snd (ExecuteSQL s q))"
  by (cases "ExecuteSQL s q") (auto simp: quiet_def dest: ExecuteSQL_frame(7))

lemma with_Lock_beta:
  "with_Lock body s = (fst (body (emit Lock s)), emit Unlock (snd (body (emit Lock s))))"
  "with_RLock body s = (fst (body (emit RLock s)), emit RUnlock (snd (body (emit RLock s))))"
  by (simp_all add: with_Lock_def with_RLock_def split: prod.splits)

lemma saveToDB_beta:
  "saveToDB E s g t p =
     (case json_Marshal E (contents_of s p) of
        Inl err \<Rightarrow> (Some (Delegate_InvalidMeta err), s)
      | Inr b \<Rightarrow> (WithScope (fst (ExecuteSQL s (Replace (id_src s) g t b))) ScopeDownstream,
                  snd (ExecuteSQL s (Replace (id_src s) g t b))))"
  by (simp add: saveToDB_def split: sum.splits prod.splits)

lemma quiet_saveToDB: "quiet s (snd (saveToDB E s g t p))"
  using quiet_ExecuteSQL[of s]
  by (auto simp: saveToDB_beta split: sum.splits)

lemma map_delete_events [simp]: "events (map_delete s g t) = events s"
  by (simp add: map_delete_def)

lemma quiet_delete: "quiet s (snd (delete s g t))"
  using quiet_ExecuteSQL[of s "DeleteRow (id_src s) g t"]
  by (auto simp: delete_def quiet_def split: option.splits prod.splits)

lemma holds_lockI:
  assumes "events s' = events s @ [acq] @ mid @ [rel]" "list_all (\<lambda>e. \<not> is_lock_event e) mid"
  shows "holds_lock acq rel s s'"
  using assms by (simp add: holds_lock_def new_events_def)

lemma with_Lock_holds:
  assumes "\<And>s1. quiet s1 (snd (body s1))"
  shows "holds_lock Lock Unlock s (snd (with_Lock body s))"
proof -
  from assms[of "emit Lock s"] obtain evs where
    "events (snd (body (emit Lock s))) = events s @ [Lock] @ evs" "list_all (\<lambda>e. \<not> is_lock_event e) evs"
    by (auto simp: quiet_def)
  then show ?thesis
    by (intro holds_lockI[where mid = evs]) (simp_all add: with_Lock_beta)
qed

lemma with_RLock_holds:
  assumes "\<And>s1. quiet s1 (snd (body s1))"
  shows "holds_lock RLock RUnlock s (snd (with_RLock body s))"
proof -
  from assms[of "emit RLock s"] obtain evs where
    "events (snd (body (emit RLock s))) = events s @ [RLock] @ evs" "list_all (\<lambda>e. \<not> is_lock_event e) evs"
    by (auto simp: quiet_def)
  then show ?thesis
    by (intro holds_lockI[where mid = evs]) (simp_all add: with_Lock_beta)
qed

lemma ubd_weaken:
  "upsert_before_delete ts tt ex None evs \<Longrightarrow> upsert_before_delete ts tt ex prev evs"
  by (induction ts tt ex "None :: event option" evs rule: upsert_before_delete.induct) auto

lemma ubd_append_gen:
  "upsert_before_delete ts tt ex prev a \<Longrightarrow> upsert_before_delete ts tt ex None b \<Longrightarrow>
   upsert_before_delete ts tt ex prev (a @ b)"
  by (induction ts tt ex prev a rule: upsert_before_delete.induct) (auto intro: ubd_weaken)

lemma same_records_refl [simp]: "same_records s s"
  by (simp add: same_records_def)

lemma delete_frame:
  assumes "delete s g t = (err, s')"
  shows "infos s' = infos s" "arrays s' = arrays s" "id_src s' = id_src s"
    and "set (mSchema_of s' g') \<subseteq> set (mSchema_of s g')"
    and "events s' = events s \<or> (\<exists>r. events s' = events s @ [Exec (DeleteRow (id_src s) g t) r])"
proof -
  obtain r s1 where ex: "ExecuteSQL s (DeleteRow (id_src s) g t) = (r, s1)"
    by (cases "ExecuteSQL s (DeleteRow (id_src s) g t)")
  note fr = ExecuteSQL_frame[OF ex]
  from assms ex have s': "s' = s \<or> s' = s1 \<or> s' = map_delete s1 g t"
    by (auto simp: delete_def split: option.splits)
  then show "infos s' = infos s" "arrays s' = arrays s" "id_src s' = id_src s"
    using fr by (auto simp: map_delete_def)
  have "set (mSchema_of (map_delete s1 g t) g') \<subseteq> set (mSchema_of s1 g')"
    by (auto simp: map_delete_def mSchema_of_def update_conv' AList.delete_eq split: option.splits if_splits)
  moreover have "mSchema_of s1 g' = mSchema_of s g'" using fr(1) by (simp add: mSchema_of_def)
  ultimately show "set (mSchema_of s' g') \<subseteq> set (mSchema_of s g')"
    using s' by auto
  from assms ex fr(7) show "events s' = events s \<or> (\<exists>r. events s' = events s @ [Exec (DeleteRow (id_src s) g t) r])"
    by (auto simp: delete_def split: option.splits)
qed

lemma traced_refl: "same_records s0 s \<Longrightarrow> traced ts tt ex s0 s s"
  by (simp add: traced_def)

lemma traced_trans:
  assumes "traced ts tt ex s0 s s'" "traced ts tt ex s0 s' s''"
  shows "traced ts tt ex s0 s s''"
proof -
  from assms obtain a b where
    a: "events s' = events s @ a" "upsert_before_delete ts tt ex None a" "list_all (\<lambda>e. \<not> is_lock_event e) a"
    and b: "events s'' = events s' @ b" "upsert_before_delete ts tt ex None b" "list_all (\<lambda>e. \<not> is_lock_event e) b"
    by (auto simp: traced_def)
  have "events s'' = events s @ (a @ b)" using a b by simp
  moreover have "upsert_before_delete ts tt ex None (a @ b)" using a b by (intro ubd_append_gen)
  moreover have "list_all (\<lambda>e. \<not> is_lock_event e) (a @ b)" using a b by simp
  ultimately show ?thesis using assms(2) unfolding traced_def by blast
qed

lemma traced_quiet: "traced ts tt ex s0 s s' \<Longrightarrow> quiet s s'"
  by (auto simp: traced_def quiet_def)

lemma migrate_traced:
  assumes R: "same_records s0 s"
    and mem: "(tbl, p) \<in> set (mSchema_of s0 schema)"
  shows "traced ts tt (\<lambda>g t. migrated_payload E rn s0 g t (tt g t)) s0 s
           (snd (migrate E rn s schema tbl (ts schema) (tt schema tbl) p))"
proof -
  define realSchema where "realSchema = ts schema"
  define realTbl where "realTbl = tt schema tbl"
  define ex where "ex = (\<lambda>g t. migrated_payload E rn s0 g t (tt g t))"
  note rs = realSchema_def and rt = realTbl_def
  have "traced ts tt ex s0 s (snd (migrate E rn s schema tbl realSchema realTbl p))"
  proof -
  let ?s1 = "s\<lparr>infos := (infos s)(p := (infos s p)\<lparr>Table := rn realTbl\<rparr>)\<rparr>"
  have R1: "same_records s0 ?s1" using R by (simp add: same_records_def mSchema_of_def)
  have c1: "contents_of ?s1 p = (Schema (infos s0 p), rn realTbl, elems s0 (DDLs (infos s0 p)))"
    using R by (simp add: contents_of_def same_records_def elems_def)
  show ?thesis
  proof (cases "json_Marshal E (contents_of ?s1 p)")
    case (Inl e)
    then have "snd (migrate E rn s schema tbl realSchema realTbl p) = ?s1"
      by (simp add: migrate_def saveToDB_beta)
    with R1 show ?thesis by (simp add: traced_def)
  next
    case (Inr b)
    obtain r s2 where ex2: "ExecuteSQL ?s1 (Replace (id_src ?s1) realSchema realTbl b) = (r, s2)"
      by (cases "ExecuteSQL ?s1 (Replace (id_src ?s1) realSchema realTbl b)")
    note fr = ExecuteSQL_frame[OF ex2]
    have R2: "same_records s0 s2" using R1 fr by (simp add: same_records_def mSchema_of_def)
    have ev2: "events s2 = events s @ [Exec (Replace (id_src s0) realSchema realTbl b) r]"
      using fr(7) R by (simp add: same_records_def)
    show ?thesis
    proof (cases r)
      case (Some e)
      then have "snd (migrate E rn s schema tbl realSchema realTbl p) = s2"
        using Inr ex2 by (simp add: migrate_def saveToDB_beta WithScope_def)
      with R2 ev2 show ?thesis by (simp add: traced_def)
    next
      case None
      obtain err s3 where d: "delete s2 schema tbl = (err, s3)" by (cases "delete s2 schema tbl")
      note dfr = delete_frame[OF d]
      from None have m: "snd (migrate E rn s schema tbl realSchema realTbl p) = s3"
        using Inr ex2 d by (simp add: migrate_def saveToDB_beta WithScope_def)
      have "\<And>g. set (mSchema_of s3 g) \<subseteq> set (mSchema_of s0 g)"
      proof -
        fix g
        have "set (mSchema_of s3 g) \<subseteq> set (mSchema_of s2 g)" by (rule dfr(4))
        also have "\<dots> \<subseteq> set (mSchema_of s0 g)" using R2 by (simp add: same_records_def)
        finally show "set (mSchema_of s3 g) \<subseteq> set (mSchema_of s0 g)" .
      qed
      then have R3: "same_records s0 s3" using R2 dfr(1-3) unfolding same_records_def by simp
      have pay: "migrated_payload E rn s0 schema tbl (tt schema tbl) b"
        using mem Inr c1 rt by (auto simp: migrated_payload_def list_ex_iff)
      have id2: "id_src s2 = id_src s0" using R2 by (simp add: same_records_def)
      from dfr(5) show ?thesis
      proof
        assume "events s3 = events s2"
        with R3 ev2 m show ?thesis by (simp add: traced_def)
      next
        assume "\<exists>r'. events s3 = events s2 @ [Exec (DeleteRow (id_src s2) schema tbl) r']"
        then obtain r' where "events s3 = events s2 @ [Exec (DeleteRow (id_src s2) schema tbl) r']" ..
        with ev2 id2 None have
          "events s3 = events s @ [Exec (Replace (id_src s0) realSchema realTbl b) None,
                                   Exec (DeleteRow (id_src s0) schema tbl) r']"
          by simp
        with R3 m pay rs rt ex_def show ?thesis by (simp add: traced_def)
      qed
    qed
  qed
  qed
  then show ?thesis by (simp add: realSchema_def realTbl_def ex_def)
qed

lemma range_tables_traced:
  assumes "same_records s0 s" "set entries \<subseteq> set (mSchema_of s0 schema)"
    and "\<And>tbl. tt schema tbl = (case tblMap tbl of Some r \<Rightarrow> r | None \<Rightarrow> tbl)"
  shows "traced ts tt (\<lambda>g t. migrated_payload E rn s0 g t (tt g t)) s0 s
           (snd (range_tables E rn schema (ts schema) hasChange tblMap s entries))"
  using assms(1,2)
proof (induction entries arbitrary: s)
  case Nil
  then show ?case by (simp add: traced_refl)
next
  case (Cons a entries)
  obtain tbl p where a: "a = (tbl, p)" by (cases a)
  let ?realTbl = "case tblMap tbl of Some r \<Rightarrow> r | None \<Rightarrow> tbl"
  let ?change = "case tblMap tbl of Some r \<Rightarrow> True | None \<Rightarrow> hasChange"
  have sub: "set entries \<subseteq> set (mSchema_of s0 schema)" and mem: "(tbl, p) \<in> set (mSchema_of s0 schema)"
    using Cons.prems(2) a by auto
  show ?case
  proof (cases ?change)
    case False
    then have "range_tables E rn schema (ts schema) hasChange tblMap s (a # entries)
        = range_tables E rn schema (ts schema) hasChange tblMap s entries"
      by (auto simp: a split: option.splits)
    with Cons.IH[OF Cons.prems(1) sub] show ?thesis by simp
  next
    case True
    obtain err s' where m: "migrate E rn s schema tbl (ts schema) ?realTbl p = (err, s')"
      by (cases "migrate E rn s schema tbl (ts schema) ?realTbl p")
    have rt: "?realTbl = tt schema tbl" using assms(3)[of tbl] by simp
    have t1: "traced ts tt (\<lambda>g t. migrated_payload E rn s0 g t (tt g t)) s0 s s'"
      using migrate_traced[OF Cons.prems(1) mem, of ts tt E rn] m by (simp add: rt)
    then have R': "same_records s0 s'" by (simp add: traced_def)
    show ?thesis
    proof (cases err)
      case (Some e)
      with True m have "snd (range_tables E rn schema (ts schema) hasChange tblMap s (a # entries)) = s'"
        by (auto simp: a split: option.splits)
      with t1 show ?thesis by simp
    next
      case None
      with True m have "range_tables E rn schema (ts schema) hasChange tblMap s (a # entries)
         = range_tables E rn schema (ts schema) hasChange tblMap s' entries"
        by (auto simp: a split: option.splits)
      with traced_trans[OF t1 Cons.IH[OF R' sub]] show ?thesis by simp
    qed
  qed
qed

lemma range_schemas_traced:
  assumes "same_records s0 s"
  shows "traced (target_schema sm) (target_table tm)
           (\<lambda>g t. migrated_payload E rn s0 g t (target_table tm g t)) s0 s
           (snd (snd (range_schemas E rn sm tm s changed keys)))"
  using assms(1)
proof (induction keys arbitrary: s changed)
  case Nil
  then show ?case by (simp add: traced_refl)
next
  case (Cons schema keys)
  let ?realSchema = "target_schema sm schema"
  let ?hasChange = "sm schema \<noteq> None"
  let ?changed = "if sm schema = None then changed else changed @ [schema]"
  let ?tblMap = "case tm schema of Some m \<Rightarrow> m | None \<Rightarrow> Map.empty"
  obtain err s' where r: "range_tables E rn schema ?realSchema ?hasChange ?tblMap s (mSchema_of s schema) = (err, s')"
    by (cases "range_tables E rn schema ?realSchema ?hasChange ?tblMap s (mSchema_of s schema)")
  have sub: "set (mSchema_of s schema) \<subseteq> set (mSchema_of s0 schema)"
    using Cons.prems by (simp add: same_records_def)
  have tt: "\<And>tbl. target_table tm schema tbl = (case ?tblMap tbl of Some r \<Rightarrow> r | None \<Rightarrow> tbl)"
    by (simp add: target_table_def split: option.splits)
  have t1: "traced (target_schema sm) (target_table tm)
           (\<lambda>g t. migrated_payload E rn s0 g t (target_table tm g t)) s0 s s'"
    using range_tables_traced[where hasChange = "?hasChange" and ts = "target_schema sm"
        and tt = "target_table tm", OF Cons.prems sub tt, of E rn] r
    by simp
  then have R': "same_records s0 s'" by (simp add: traced_def)
  have unf: "range_schemas E rn sm tm s changed (schema # keys) =
      (case err of Some e \<Rightarrow> (Some e, ?changed, s')
       | None \<Rightarrow> range_schemas E rn sm tm s' ?changed keys)"
    using r by (auto simp: target_schema_def split: option.splits)
  show ?case
  proof (cases err)
    case None
    with unf traced_trans[OF t1 Cons.IH[OF R', of ?changed]] show ?thesis by simp
  next
    case (Some e)
    with unf t1 show ?thesis by simp
  qed
qed

lemma rekey_events [simp]: "events (rekey sm s keys) = events s"
  by (induction keys arbitrary: s) simp_all

lemma migrated_payload_emit [simp]:
  "migrated_payload E rn (emit ev s) = migrated_payload E rn s"
  by (simp add: migrated_payload_def mSchema_of_def fun_eq_iff)

lemma CheckAndUpdate_events:
  "\<exists>evs. events (snd (CheckAndUpdate E s sm tm rn)) = events s @ [Lock] @ evs @ [Unlock]
       \<and> upsert_before_delete (target_schema sm) (target_table tm)
            (\<lambda>g t. migrated_payload E rn s g t (target_table tm g t)) None evs
       \<and> list_all (\<lambda>e. \<not> is_lock_event e) evs"
proof -
  let ?s1 = "emit Lock s"
  obtain err ch s' where r: "range_schemas E rn sm tm ?s1 [] (map fst (ddls ?s1)) = (err, ch, s')"
    by (cases "range_schemas E rn sm tm ?s1 [] (map fst (ddls ?s1))")
  have "traced (target_schema sm) (target_table tm)
          (\<lambda>g t. migrated_payload E rn ?s1 g t (target_table tm g t)) ?s1 ?s1 s'"
    using range_schemas_traced[OF same_records_refl, of sm tm E rn ?s1 "[]" "map fst (ddls ?s1)"] r
    by simp
  then obtain evs where evs: "events s' = events s @ [Lock] @ evs"
      "upsert_before_delete (target_schema sm) (target_table tm)
            (\<lambda>g t. migrated_payload E rn s g t (target_table tm g t)) None evs"
      "list_all (\<lambda>e. \<not> is_lock_event e) evs"
    by (auto simp: traced_def)
  have "events (snd (CheckAndUpdate E s sm tm rn)) = events s' @ [Unlock]"
    using r by (cases err) (simp_all add: CheckAndUpdate_def with_Lock_beta)
  with evs show ?thesis by auto
qed

lemma append_and_save_quiet: "quiet s (snd (append_and_save E s g t p ddl))"
proof -
  obtain d' s3 where ap: "append_go E s (DDLs (infos s p)) ddl = (d', s3)"
    by (cases "append_go E s (DDLs (infos s p)) ddl")
  let ?s3' = "s3\<lparr>infos := (infos s3)(p := (infos s3 p)\<lparr>DDLs := d'\<rparr>)\<rparr>"
  have "quiet s ?s3'" using append_go_frame(5)[OF ap] by (simp add: quiet_def)
  from quiet_trans[OF this quiet_saveToDB[of ?s3' E g t p]] show ?thesis
    by (cases "saveToDB E ?s3' g t p") (simp add: append_and_save_def ap)
qed

lemma fresh_entry_events [simp]: "events (fresh_entry s g t rs rt) = events s"
  by (simp add: fresh_entry_def map_store_def split: option.splits)

lemma Save_locked_quiet: "quiet s (snd (Save_locked E s g t rs rt ddl))"
proof (cases "lookup s g t")
  case None
  have "quiet s (fresh_entry s g t rs rt)" by (simp add: quiet_def)
  from quiet_trans[OF this append_and_save_quiet] show ?thesis
    by (simp add: Save_locked_new[OF None])
next
  case (Some p)
  show ?thesis using append_and_save_quiet[of s E g t p ddl]
    by (simp add: Save_locked_existing[OF Some])
qed

lemma Load_row_events [simp]: "events (snd (Load_row E s g t d)) = events s"
  by (simp add: Load_row_def Unmarshal_into_def new_info_def map_store_def Let_def split: prod.splits option.splits)

lemma Load_rows_events [simp]: "events (snd (Load_rows E s scans)) = events s"
proof (induction scans arbitrary: s)
  case Nil
  then show ?case by simp
next
  case (Cons r scans)
  show ?case
  proof (cases r)
    case (ScanError e)
    then show ?thesis by simp
  next
    case (Scanned g t d)
    obtain u s' where l: "Load_row E s g t d = (u, s')" by (cases "Load_row E s g t d")
    have "events s' = events s" using Load_row_events[of E s g t d] l by simp
    with Cons.IH[of s'] l Scanned show ?thesis by (cases u) simp_all
  qed
qed

lemmas run_defs =
  Get_def CheckAndUpdate_def Save_def Save_locked_def append_and_save_def NewOnlineDDLStorage_def with_Lock_def
  with_RLock_def emit_def new_info_def map_store_def mSchema_of_def append_go_def nil_slice_def
  saveToDB_def contents_of_def elems_def ExecuteSQL_def WithScope_def delete_def map_delete_def
  migrate_def lookup_def record_at_def Delete_def Clear_def AList.delete_eq

lemma example_store_eq:
  "example_store =
     \<lparr>id_src = ''mysql-01'', ddls = [(''g1'', [(''t1'', 0)])],
      infos = (\<lambda>_. \<lparr>Schema = [], Table = [], DDLs = nil_slice\<rparr>)
                (0 := \<lparr>Schema = ''db'', Table = ''tbl'', DDLs = \<lparr>ptr = 0, len = 1, cap = 1\<rparr>\<rparr>),
      arrays = (\<lambda>_. [])(0 := [''ALTER TABLE t1 ADD c INT'']),
      next_info = 1, next_array = 1,
      rows = (\<lambda>_. None)((''mysql-01'', ''g1'', ''t1'') \<mapsto> ''db.tbl:ALTER TABLE t1 ADD c INT''),
      faults = [],
      events = [Lock, Exec (Replace ''mysql-01'' ''g1'' ''t1'' ''db.tbl:ALTER TABLE t1 ADD c INT'') None, Unlock]\<rparr>"
  by (simp add: example_store_def example_env_def run_defs)

lemma Get_present:
  assumes "lookup s g t = Some p"
  shows "fst (Get s g t) = Some (next_info s)"
    and "infos (snd (Get s g t)) = (infos s)(next_info s := infos s p)"
    and "ddls (snd (Get s g t)) = ddls s" and "arrays (snd (Get s g t)) = arrays s"
    and "rows (snd (Get s g t)) = rows s"
  using assms by (auto simp: Get_def with_RLock_def new_info_def lookup_def emit_def split: option.splits)

lemma reconciled_eq:
  "CheckAndUpdate example_env example_store [''g1'' \<mapsto> ''g2''] Map.empty id =
    (None,
     \<lparr>id_src = ''mysql-01'', ddls = [(''g2'', [])],
      infos = (\<lambda>_. \<lparr>Schema = [], Table = [], DDLs = nil_slice\<rparr>)
                (0 := \<lparr>Schema = ''db'', Table = ''t1'', DDLs = \<lparr>ptr = 0, len = 1, cap = 1\<rparr>\<rparr>),
      arrays = (\<lambda>_. [])(0 := [''ALTER TABLE t1 ADD c INT'']),
      next_info = 1, next_array = 1,
      rows = (\<lambda>_. None)((''mysql-01'', ''g2'', ''t1'') \<mapsto> ''db.t1:ALTER TABLE t1 ADD c INT''),
      faults = [],
      events = [Lock, Exec (Replace ''mysql-01'' ''g1'' ''t1'' ''db.tbl:ALTER TABLE t1 ADD c INT'') None, Unlock,
                Lock, Exec (Replace ''mysql-01'' ''g2'' ''t1'' ''db.t1:ALTER TABLE t1 ADD c INT'') None,
                Exec (DeleteRow ''mysql-01'' ''g1'' ''t1'') None, Unlock]\<rparr>)"
  by (simp add: example_store_eq example_env_def run_defs fun_eq_iff)

lemma heap_ok_wf_key: "heap_ok s \<Longrightarrow> wf_key s g t"
  by (auto simp: heap_ok_def wf_key_def split: option.splits)

lemma saveToDB_success:
  assumes "saveToDB E s g t p = (None, s')"
  shows "\<exists>payload. json_Marshal E (contents_of s p) = Inr payload
           \<and> rows s' = (rows s)((id_src s, g, t) \<mapsto> payload)"
proof (cases "json_Marshal E (contents_of s p)")
  case (Inl e)
  with assms show ?thesis by (simp add: saveToDB_beta)
next
  case (Inr b)
  obtain r s2 where ex: "ExecuteSQL s (Replace (id_src s) g t b) = (r, s2)"
    by (cases "ExecuteSQL s (Replace (id_src s) g t b)")
  with assms Inr have "r = None" "s2 = s'" by (auto simp: saveToDB_beta WithScope_def split: option.splits)
  with ExecuteSQL_frame(9)[OF ex] Inr show ?thesis by simp
qed

lemma append_go_other:
  assumes ap: "append_go E s d x = (d', s3)"
    and wfq: "wf_slice s q"
    and sep: "cap q = 0 \<or> (ptr q < next_array s \<and> (cap d = 0 \<or> ptr q \<noteq> ptr d))"
  shows "elems s3 q = elems s q" and "wf_slice s3 q"
  using assms
  by (auto simp: append_go_def elems_def wf_slice_def Let_def split: if_splits)

lemma append_and_save_other:
  assumes run: "append_and_save E s g t p ddl = (err, s')"
    and ne: "q \<noteq> p"
    and wfq: "wf_slice s (DDLs (infos s q))"
    and sep: "cap (DDLs (infos s q)) = 0 \<or>
             (ptr (DDLs (infos s q)) < next_array s \<and>
              (cap (DDLs (infos s p)) = 0 \<or> ptr (DDLs (infos s q)) \<noteq> ptr (DDLs (infos s p))))"
  shows "contents_of s' q = contents_of s q"
proof -
  obtain d' s3 where ap: "append_go E s (DDLs (infos s p)) ddl = (d', s3)"
    by (cases "append_go E s (DDLs (infos s p)) ddl")
  let ?s3' = "s3\<lparr>infos := (infos s3)(p := (infos s3 p)\<lparr>DDLs := d'\<rparr>)\<rparr>"
  obtain e4 s4 where sv: "saveToDB E ?s3' g t p = (e4, s4)"
    by (cases "saveToDB E ?s3' g t p")
  from run ap sv have res: "s' = s4" by (simp add: append_and_save_def)
  note fr3 = append_go_frame[OF ap] and fr4 = saveToDB_frame[OF sv]
  have "infos s' q = infos s q" using res fr3 fr4 ne by simp
  moreover have "elems s' (DDLs (infos s q)) = elems s (DDLs (infos s q))"
    using append_go_other(1)[OF ap wfq sep] res fr4(3) by (simp add: elems_def)
  ultimately show ?thesis by (simp add: contents_of_def)
qed

lemma append_and_save_success:
  assumes run: "append_and_save E s g t p ddl = (None, s')"
  shows "\<exists>payload. json_Marshal E (contents_of s' p) = Inr payload
           \<and> rows s' = (rows s)((id_src s, g, t) \<mapsto> payload)"
proof -
  obtain d' s3 where ap: "append_go E s (DDLs (infos s p)) ddl = (d', s3)"
    by (cases "append_go E s (DDLs (infos s p)) ddl")
  let ?s3' = "s3\<lparr>infos := (infos s3)(p := (infos s3 p)\<lparr>DDLs := d'\<rparr>)\<rparr>"
  obtain e4 s4 where sv: "saveToDB E ?s3' g t p = (e4, s4)"
    by (cases "saveToDB E ?s3' g t p")
  from run ap sv have res: "s' = s4" "e4 = None"
    by (auto simp: append_and_save_def WithScope_def split: option.splits)
  note fr3 = append_go_frame[OF ap] and fr4 = saveToDB_frame[OF sv]
  from saveToDB_success[OF sv[unfolded res(2)]] obtain payload where
    p: "json_Marshal E (contents_of ?s3' p) = Inr payload" "rows s4 = (rows ?s3')((id_src ?s3', g, t) \<mapsto> payload)"
    by blast
  have "contents_of s' p = contents_of ?s3' p" using res fr4 by (simp add: contents_of_def elems_def)
  with p res fr3 show ?thesis by simp
qed

lemma lookup_fresh_entry_other:
  "(g', t') \<noteq> (g, t) \<Longrightarrow> lookup (fresh_entry s g t rs rt) g' t' = lookup s g' t'"
  by (auto simp: fresh_entry_def map_store_def lookup_def mSchema_of_def update_conv' split: option.splits)

lemma fresh_entry_heap:
  "q \<noteq> next_info s \<Longrightarrow> infos (fresh_entry s g t rs rt) q = infos s q"
  "next_array (fresh_entry s g t rs rt) = next_array s"
  by (simp_all add: fresh_entry_def map_store_def split: option.splits)

lemma mirroredI:
  assumes "\<And>g t. lookup s g t = None \<Longrightarrow> rows s (id_src s, g, t) = None"
    and "\<And>g t p. lookup s g t = Some p \<Longrightarrow>
           \<exists>payload. json_Marshal E (contents_of s p) = Inr payload \<and> rows s (id_src s, g, t) = Some payload"
  shows "mirrored E s"
  using assms by (auto simp: mirrored_def split: option.splits)

lemma mirroredD:
  assumes "mirrored E s"
  shows "lookup s g t = None \<Longrightarrow> rows s (id_src s, g, t) = None"
    and "lookup s g t = Some p \<Longrightarrow>
           \<exists>payload. json_Marshal E (contents_of s p) = Inr payload \<and> rows s (id_src s, g, t) = Some payload"
  using assms[unfolded mirrored_def, THEN spec, THEN spec, of g t] by (auto split: option.splits)

lemma append_and_save_mirrored:
  assumes run: "append_and_save E f g t p ddl = (None, s')"
    and lk: "lookup f g t = Some p"
    and wfp: "wf_slice f (DDLs (infos f p))"
    and others: "\<And>g' t' q. (g', t') \<noteq> (g, t) \<Longrightarrow> lookup f g' t' = Some q \<Longrightarrow>
        q \<noteq> p \<and> wf_slice f (DDLs (infos f q))
        \<and> (cap (DDLs (infos f q)) = 0 \<or>
             (ptr (DDLs (infos f q)) < next_array f \<and>
              (cap (DDLs (infos f p)) = 0 \<or> ptr (DDLs (infos f q)) \<noteq> ptr (DDLs (infos f p)))))
        \<and> (\<exists>payload. json_Marshal E (contents_of f q) = Inr payload \<and> rows f (id_src f, g', t') = Some payload)"
    and absent: "\<And>g' t'. (g', t') \<noteq> (g, t) \<Longrightarrow> lookup f g' t' = None \<Longrightarrow> rows f (id_src f, g', t') = None"
  shows "mirrored E s'"
proof -
  note eff = append_and_save_effect[OF wfp run]
  from append_and_save_success[OF run] obtain payload where
    pl: "json_Marshal E (contents_of s' p) = Inr payload" "rows s' = (rows f)((id_src f, g, t) \<mapsto> payload)"
    by blast
  have lk': "\<And>g' t'. lookup s' g' t' = lookup f g' t'" using eff(1) by (simp add: lookup_def)
  show ?thesis
  proof (rule mirroredI)
    fix g' t' assume n: "lookup s' g' t' = None"
    then have "(g', t') \<noteq> (g, t)" using lk lk' by auto
    moreover from this absent n lk' have "rows f (id_src f, g', t') = None" by simp
    ultimately show "rows s' (id_src s', g', t') = None" using pl(2) eff(5) by auto
  next
    fix g' t' q assume q: "lookup s' g' t' = Some q"
    show "\<exists>payload. json_Marshal E (contents_of s' q) = Inr payload \<and> rows s' (id_src s', g', t') = Some payload"
    proof (cases "(g', t') = (g, t)")
      case True
      with q lk lk' have "q = p" by simp
      with True pl eff(5) show ?thesis by simp
    next
      case False
      from others[OF False] q lk' have o: "q \<noteq> p" "wf_slice f (DDLs (infos f q))"
        "cap (DDLs (infos f q)) = 0 \<or>
             (ptr (DDLs (infos f q)) < next_array f \<and>
              (cap (DDLs (infos f p)) = 0 \<or> ptr (DDLs (infos f q)) \<noteq> ptr (DDLs (infos f p))))"
        "\<exists>payload. json_Marshal E (contents_of f q) = Inr payload \<and> rows f (id_src f, g', t') = Some payload"
        by auto
      have "contents_of s' q = contents_of f q" by (rule append_and_save_other[OF run o(1) o(2) o(3)])
      with o(4) False pl(2) eff(5) show ?thesis by auto
    qed
  qed
qed

lemma Save_locked_mirrored:
  assumes m: "mirrored E s" and h: "heap_ok s" and run: "Save_locked E s g t rs rt ddl = (None, s')"
  shows "mirrored E s'"
proof (cases "lookup s g t")
  case None
  let ?f = "fresh_entry s g t rs rt" and ?p = "next_info s"
  from None run have r: "append_and_save E ?f g t ?p ddl = (None, s')" by (simp add: Save_locked_new)
  show ?thesis
  proof (rule append_and_save_mirrored[OF r])
    show "lookup ?f g t = Some ?p" by (simp add: fresh_entry_fields)
    show "wf_slice ?f (DDLs (infos ?f ?p))" by (simp add: fresh_entry_fields)
  next
    fix g' t' q assume ne: "(g', t') \<noteq> (g, t)" and "lookup ?f g' t' = Some q"
    then have q: "lookup s g' t' = Some q" by (simp add: lookup_fresh_entry_other)
    with h have hq: "q < next_info s" "wf_slice s (DDLs (infos s q))"
      "cap (DDLs (infos s q)) = 0 \<or> ptr (DDLs (infos s q)) < next_array s"
      unfolding heap_ok_def by blast+
    then have iq: "infos ?f q = infos s q" by (simp add: fresh_entry_heap)
    have c: "contents_of ?f q = contents_of s q"
      using iq by (simp add: contents_of_def elems_def fresh_entry_fields)
    have w: "wf_slice ?f (DDLs (infos ?f q))" using hq(2) iq by (simp add: wf_slice_def fresh_entry_fields)
    from mirroredD(2)[OF m q] c
    have "\<exists>payload. json_Marshal E (contents_of ?f q) = Inr payload \<and> rows ?f (id_src ?f, g', t') = Some payload"
      by (simp add: fresh_entry_fields)
    with hq iq w show "q \<noteq> ?p \<and> wf_slice ?f (DDLs (infos ?f q))
        \<and> (cap (DDLs (infos ?f q)) = 0 \<or>
             (ptr (DDLs (infos ?f q)) < next_array ?f \<and>
              (cap (DDLs (infos ?f ?p)) = 0 \<or> ptr (DDLs (infos ?f q)) \<noteq> ptr (DDLs (infos ?f ?p)))))
        \<and> (\<exists>payload. json_Marshal E (contents_of ?f q) = Inr payload \<and> rows ?f (id_src ?f, g', t') = Some payload)"
      by (auto simp: fresh_entry_fields fresh_entry_heap nil_slice_def)
  next
    fix g' t' assume "(g', t') \<noteq> (g, t)" and "lookup ?f g' t' = None"
    then have "lookup s g' t' = None" by (simp add: lookup_fresh_entry_other)
    from mirroredD(1)[OF m this] show "rows ?f (id_src ?f, g', t') = None" by (simp add: fresh_entry_fields)
  qed
next
  case (Some p)
  from h Some have wfp: "wf_slice s (DDLs (infos s p))" unfolding heap_ok_def by blast
  show ?thesis
  proof (cases "len (DDLs (infos s p)) \<noteq> 0 \<and> arrays s (ptr (DDLs (infos s p))) ! (len (DDLs (infos s p)) - 1) = ddl")
    case True
    with run Some have "s' = s" by (simp add: Save_locked_existing)
    with m show ?thesis by simp
  next
    case False
    with run Some have r: "append_and_save E s g t p ddl = (None, s')"
      by (auto simp: Save_locked_existing split: if_splits)
    show ?thesis
    proof (rule append_and_save_mirrored[OF r Some wfp])
      fix g' t' q assume ne: "(g', t') \<noteq> (g, t)" and q: "lookup s g' t' = Some q"
      from h q have hq: "wf_slice s (DDLs (infos s q))"
        "cap (DDLs (infos s q)) = 0 \<or> ptr (DDLs (infos s q)) < next_array s"
        unfolding heap_ok_def by blast+
      from h q Some ne have sep: "q \<noteq> p"
        "cap (DDLs (infos s q)) = 0 \<or> cap (DDLs (infos s p)) = 0
              \<or> ptr (DDLs (infos s q)) \<noteq> ptr (DDLs (infos s p))"
        unfolding heap_ok_def by blast+
      from mirroredD(2)[OF m q] hq sep
      show "q \<noteq> p \<and> wf_slice s (DDLs (infos s q))
        \<and> (cap (DDLs (infos s q)) = 0 \<or>
             (ptr (DDLs (infos s q)) < next_array s \<and>
              (cap (DDLs (infos s p)) = 0 \<or> ptr (DDLs (infos s q)) \<noteq> ptr (DDLs (infos s p)))))
        \<and> (\<exists>payload. json_Marshal E (contents_of s q) = Inr payload \<and> rows s (id_src s, g', t') = Some payload)"
        by auto
    next
      fix g' t' assume "(g', t') \<noteq> (g, t)" and "lookup s g' t' = None"
      from mirroredD(1)[OF m this(2)] show "rows s (id_src s, g', t') = None" .
    qed
  qed
qed

lemma mirrored_emit [simp]: "mirrored E (emit ev s) = mirrored E s"
  by (simp add: mirrored_def cong: option.case_cong)

lemma heap_ok_emit [simp]: "heap_ok (emit ev s) = heap_ok s"
  by (simp add: heap_ok_def)

lemma Save_mirrored:
  assumes "mirrored E s" "heap_ok s" "fst (Save E s g t rs rt ddl) = None"
  shows "mirrored E (snd (Save E s g t rs rt ddl))"
proof -
  obtain err s' where r: "Save_locked E (emit Lock s) g t rs rt ddl = (err, s')"
    by (cases "Save_locked E (emit Lock s) g t rs rt ddl")
  with assms(3) have "err = None" by (simp add: Save_unfold)
  with r Save_locked_mirrored[of E "emit Lock s" g t rs rt ddl s'] assms(1,2)
  show ?thesis by (simp add: Save_unfold)
qed

lemma lookup_map_delete:
  assumes "map_of (ddls s) g \<noteq> None"
  shows "lookup (map_delete s g t) g' t' = (if (g', t') = (g, t) then None else lookup s g' t')"
  using assms
  by (auto simp: map_delete_def lookup_def mSchema_of_def update_conv' delete_conv' split: option.splits)

lemma Delete_mirrored:
  assumes m: "mirrored E s" and ok: "fst (Delete s g t) = None"
  shows "mirrored E (snd (Delete s g t))"
proof (cases "map_of (ddls s) g")
  case None
  then have "snd (Delete s g t) = emit Unlock (emit Lock s)"
    by (simp add: Delete_def with_Lock_beta delete_def)
  with m show ?thesis by simp
next
  case (Some mS)
  let ?s1 = "emit Lock s"
  obtain r s2 where ex: "ExecuteSQL ?s1 (DeleteRow (id_src ?s1) g t) = (r, s2)"
    by (cases "ExecuteSQL ?s1 (DeleteRow (id_src ?s1) g t)")
  note fr = ExecuteSQL_frame[OF ex]
  from ok Some ex have r: "r = None"
    by (auto simp: Delete_def with_Lock_beta delete_def WithScope_def split: option.splits)
  with Some ex have res: "snd (Delete s g t) = emit Unlock (map_delete s2 g t)"
    by (simp add: Delete_def with_Lock_beta delete_def)
  have pres: "map_of (ddls s2) g \<noteq> None" using fr(1) Some by simp
  have lk: "\<And>g' t'. lookup (map_delete s2 g t) g' t' = (if (g', t') = (g, t) then None else lookup s g' t')"
    using lookup_map_delete[OF pres] fr(1) by (simp add: lookup_def)
  have rw: "rows (map_delete s2 g t) = (rows s)((id_src s, g, t) := None)"
    using fr(9) r by (simp add: map_delete_def)
  have cs: "\<And>q. contents_of (map_delete s2 g t) q = contents_of s q"
    using fr(2,3) by (simp add: contents_of_def elems_def map_delete_def)
  have idm: "id_src (map_delete s2 g t) = id_src s" using fr(4) by (simp add: map_delete_def)
  have "mirrored E (map_delete s2 g t)"
  proof (rule mirroredI)
    fix g' t' assume "lookup (map_delete s2 g t) g' t' = None"
    then show "rows (map_delete s2 g t) (id_src (map_delete s2 g t), g', t') = None"
      using mirroredD(1)[OF m, of g' t'] by (auto simp: lk rw idm split: if_splits)
  next
    fix g' t' q assume "lookup (map_delete s2 g t) g' t' = Some q"
    then show "\<exists>payload. json_Marshal E (contents_of (map_delete s2 g t) q) = Inr payload
        \<and> rows (map_delete s2 g t) (id_src (map_delete s2 g t), g', t') = Some payload"
      using mirroredD(2)[OF m, of g' t' q] by (auto simp: lk rw idm cs split: if_splits)
  qed
  with res show ?thesis by simp
qed

lemma Clear_mirrored:
  assumes ok: "fst (Clear s) = None"
  shows "mirrored E (snd (Clear s))"
proof -
  let ?s1 = "emit Lock s"
  obtain r s2 where ex: "ExecuteSQL ?s1 (DeleteAll (id_src ?s1)) = (r, s2)"
    by (cases "ExecuteSQL ?s1 (DeleteAll (id_src ?s1))")
  note fr = ExecuteSQL_frame[OF ex]
  from ok ex have r: "r = None"
    by (auto simp: Clear_def with_Lock_beta WithScope_def split: option.splits)
  with ex have res: "snd (Clear s) = emit Unlock (s2\<lparr>ddls := []\<rparr>)"
    by (simp add: Clear_def with_Lock_beta)
  have "mirrored E (s2\<lparr>ddls := []\<rparr>)"
    using fr(9) r fr(4) by (simp add: mirrored_def lookup_def)
  with res show ?thesis by simp
qed

lemma heap_okI:
  assumes "\<And>g t p. lookup s g t = Some p \<Longrightarrow>
        p < next_info s \<and> wf_slice s (DDLs (infos s p))
        \<and> (cap (DDLs (infos s p)) = 0 \<or> ptr (DDLs (infos s p)) < next_array s)"
    and "\<And>g t g' t' p p'. lookup s g t = Some p \<Longrightarrow> lookup s g' t' = Some p' \<Longrightarrow> (g, t) \<noteq> (g', t') \<Longrightarrow>
          p \<noteq> p'
          \<and> (cap (DDLs (infos s p)) = 0 \<or> cap (DDLs (infos s p')) = 0
              \<or> ptr (DDLs (infos s p)) \<noteq> ptr (DDLs (infos s p')))"
  shows "heap_ok s"
  unfolding heap_ok_def using assms by blast

lemma heap_okD:
  assumes "heap_ok s"
  shows "lookup s g t = Some p \<Longrightarrow> p < next_info s"
    and "lookup s g t = Some p \<Longrightarrow> wf_slice s (DDLs (infos s p))"
    and "lookup s g t = Some p \<Longrightarrow> cap (DDLs (infos s p)) = 0 \<or> ptr (DDLs (infos s p)) < next_array s"
    and "lookup s g t = Some p \<Longrightarrow> lookup s g' t' = Some p' \<Longrightarrow> (g, t) \<noteq> (g', t') \<Longrightarrow> p \<noteq> p'"
    and "lookup s g t = Some p \<Longrightarrow> lookup s g' t' = Some p' \<Longrightarrow> (g, t) \<noteq> (g', t') \<Longrightarrow>
          cap (DDLs (infos s p)) = 0 \<or> cap (DDLs (infos s p')) = 0
              \<or> ptr (DDLs (infos s p)) \<noteq> ptr (DDLs (infos s p'))"
  using assms unfolding heap_ok_def by blast+

text \<open>A state that differs from a good one only in fields that the heap discipline does not read.\<close>

lemma heap_ok_cong:
  assumes "heap_ok s" "ddls s' = ddls s" "infos s' = infos s" "arrays s' = arrays s"
    "next_info s' = next_info s" "next_array s' = next_array s"
  shows "heap_ok s'"
  using assms by (simp add: heap_ok_def lookup_def wf_slice_def)

lemma heap_ok_New: "heap_ok (NewOnlineDDLStorage sourceID)"
  by (simp add: heap_ok_def lookup_def NewOnlineDDLStorage_def)

lemma lookup_map_store_gen:
  "lookup (map_store s g t p) g' t' = (if (g', t') = (g, t) then Some p else lookup s g' t')"
  by (auto simp: map_store_def lookup_def mSchema_of_def update_conv' split: option.splits)

lemma lookup_ensure_schema:
  "map_of (ddls s) g = None \<Longrightarrow> lookup (s\<lparr>ddls := AList.update g [] (ddls s)\<rparr>) g' t' = lookup s g' t'"
  by (auto simp: lookup_def update_conv' split: option.splits)

lemma lookup_fresh_entry:
  "lookup (fresh_entry s g t rs rt) g' t' = (if (g', t') = (g, t) then Some (next_info s) else lookup s g' t')"
  by (auto simp: fresh_entry_def map_store_def lookup_def mSchema_of_def update_conv' split: option.splits)

lemma fresh_entry_next_info [simp]: "next_info (fresh_entry s g t rs rt) = Suc (next_info s)"
  by (simp add: fresh_entry_def map_store_def split: option.splits)

lemma fresh_entry_heap_ok:
  assumes "heap_ok s"
  shows "heap_ok (fresh_entry s g t rs rt)"
proof (rule heap_okI)
  let ?f = "fresh_entry s g t rs rt"
  fix g' t' p assume p: "lookup ?f g' t' = Some p"
  show "p < next_info ?f \<and> wf_slice ?f (DDLs (infos ?f p))
        \<and> (cap (DDLs (infos ?f p)) = 0 \<or> ptr (DDLs (infos ?f p)) < next_array ?f)"
  proof (cases "(g', t') = (g, t)")
    case True
    with p have "p = next_info s" by (simp add: fresh_entry_fields)
    then show ?thesis by (simp add: fresh_entry_fields nil_slice_def wf_slice_def)
  next
    case False
    from p have ps: "lookup s g' t' = Some p" by (simp add: lookup_fresh_entry_other[OF False])
    note d = heap_okD(1-3)[OF assms ps]
    from d(1) have "infos ?f p = infos s p" by (simp add: fresh_entry_heap)
    with d show ?thesis by (auto simp: fresh_entry_heap wf_slice_def fresh_entry_fields)
  qed
next
  let ?f = "fresh_entry s g t rs rt"
  fix g1 t1 g2 t2 p p'
  assume a: "lookup ?f g1 t1 = Some p" "lookup ?f g2 t2 = Some p'" "(g1, t1) \<noteq> (g2, t2)"
  have old: "\<And>g' t' q. lookup s g' t' = Some q \<Longrightarrow> q \<noteq> next_info s \<and> infos ?f q = infos s q"
  proof -
    fix g' t' q assume "lookup s g' t' = Some q"
    from heap_okD(1)[OF assms this] have "q \<noteq> next_info s" by simp
    then show "q \<noteq> next_info s \<and> infos ?f q = infos s q" by (simp add: fresh_entry_heap)
  qed
  have new: "cap (DDLs (infos ?f (next_info s))) = 0" by (simp add: fresh_entry_fields nil_slice_def)
  show "p \<noteq> p' \<and> (cap (DDLs (infos ?f p)) = 0 \<or> cap (DDLs (infos ?f p')) = 0
              \<or> ptr (DDLs (infos ?f p)) \<noteq> ptr (DDLs (infos ?f p')))"
  proof (cases "(g1, t1) = (g, t)")
    case True
    with a(1) have p: "p = next_info s" by (simp add: fresh_entry_fields)
    from True a(3) have ne2: "(g2, t2) \<noteq> (g, t)" by auto
    from a(2) have "lookup s g2 t2 = Some p'" by (simp add: lookup_fresh_entry_other[OF ne2])
    from old[OF this] p new show ?thesis by auto
  next
    case False
    from a(1) have p: "lookup s g1 t1 = Some p" by (simp add: lookup_fresh_entry_other[OF False])
    show ?thesis
    proof (cases "(g2, t2) = (g, t)")
      case True
      with a(2) have "p' = next_info s" by (simp add: fresh_entry_fields)
      with old[OF p] new show ?thesis by auto
    next
      case False
      from a(2) have p': "lookup s g2 t2 = Some p'" by (simp add: lookup_fresh_entry_other[OF False])
      from old[OF p] old[OF p'] heap_okD(4,5)[OF assms p p' a(3)] show ?thesis by auto
    qed
  qed
qed

lemma append_go_result:
  assumes "append_go E s d x = (d', s3)"
  shows "len d < cap d \<Longrightarrow> ptr d' = ptr d \<and> cap d' = cap d \<and> next_array s3 = next_array s"
    and "\<not> len d < cap d \<Longrightarrow> ptr d' = next_array s \<and> next_array s3 = Suc (next_array s)"
  using assms by (auto simp: append_go_def Let_def split: if_splits)

lemma append_and_save_heap_ok:
  assumes run: "append_and_save E f g t p ddl = (err, s')"
    and lk: "lookup f g t = Some p" and h: "heap_ok f"
  shows "heap_ok s'"
proof -
  let ?d = "DDLs (infos f p)"
  obtain d' s3 where ap: "append_go E f ?d ddl = (d', s3)"
    by (cases "append_go E f ?d ddl")
  let ?s3' = "s3\<lparr>infos := (infos s3)(p := (infos s3 p)\<lparr>DDLs := d'\<rparr>)\<rparr>"
  obtain e4 s4 where sv: "saveToDB E ?s3' g t p = (e4, s4)"
    by (cases "saveToDB E ?s3' g t p")
  from run ap sv have res: "s' = s4" by (simp add: append_and_save_def)
  note fr3 = append_go_frame[OF ap] and fr4 = saveToDB_frame[OF sv]
  note wfp = heap_okD(2)[OF h lk]
  note el = elems_append_go[OF wfp ap]
  note ar = append_go_result[OF ap]
  have lk': "\<And>g' t'. lookup s' g' t' = lookup f g' t'" using res fr3 fr4 by (simp add: lookup_def)
  have ip: "DDLs (infos s' p) = d'" using res fr3 fr4 by simp
  have iq: "\<And>q. q \<noteq> p \<Longrightarrow> infos s' q = infos f q" using res fr3 fr4 by simp
  have arr: "arrays s' = arrays s3" using res fr4 by simp
  have ni: "next_info s' = next_info f" using res fr3 fr4 by simp
  have na: "next_array s' = next_array s3" using res fr4 by simp
  have na_mono: "next_array f \<le> next_array s'" using ar na by (cases "len ?d < cap ?d") auto
  have wfp': "wf_slice s' d'" using el(2) by (simp add: wf_slice_arrays_cong[OF arr])
  have ownp': "cap d' = 0 \<or> ptr d' < next_array s'"
    using ar heap_okD(3)[OF h lk] na by (cases "len ?d < cap ?d") auto
  have other: "\<And>g' t' q. lookup f g' t' = Some q \<Longrightarrow> (g', t') \<noteq> (g, t) \<Longrightarrow>
      q \<noteq> p \<and> wf_slice s' (DDLs (infos f q))
      \<and> (cap (DDLs (infos f q)) = 0 \<or> ptr (DDLs (infos f q)) < next_array s')
      \<and> (cap d' = 0 \<or> cap (DDLs (infos f q)) = 0 \<or> ptr d' \<noteq> ptr (DDLs (infos f q)))"
  proof -
    fix g' t' q assume q: "lookup f g' t' = Some q" and ne: "(g', t') \<noteq> (g, t)"
    note dq = heap_okD(1-3)[OF h q]
    note sep = heap_okD(4,5)[OF h q lk ne]
    have s1: "cap (DDLs (infos f q)) = 0 \<or>
        (ptr (DDLs (infos f q)) < next_array f \<and> (cap ?d = 0 \<or> ptr (DDLs (infos f q)) \<noteq> ptr ?d))"
      using dq(3) sep(2) by auto
    have "wf_slice s' (DDLs (infos f q))"
      using append_go_other(2)[OF ap dq(2) s1] by (simp add: wf_slice_arrays_cong[OF arr])
    moreover have "cap d' = 0 \<or> cap (DDLs (infos f q)) = 0 \<or> ptr d' \<noteq> ptr (DDLs (infos f q))"
      using ar s1 by (cases "len ?d < cap ?d") auto
    ultimately show "q \<noteq> p \<and> wf_slice s' (DDLs (infos f q))
      \<and> (cap (DDLs (infos f q)) = 0 \<or> ptr (DDLs (infos f q)) < next_array s')
      \<and> (cap d' = 0 \<or> cap (DDLs (infos f q)) = 0 \<or> ptr d' \<noteq> ptr (DDLs (infos f q)))"
      using sep(1) dq(3) na_mono by auto
  qed
  show ?thesis
  proof (rule heap_okI)
    fix g' t' q assume q: "lookup s' g' t' = Some q"
    show "q < next_info s' \<and> wf_slice s' (DDLs (infos s' q))
        \<and> (cap (DDLs (infos s' q)) = 0 \<or> ptr (DDLs (infos s' q)) < next_array s')"
    proof (cases "(g', t') = (g, t)")
      case True
      with q lk lk' have "q = p" by simp
      with wfp' ownp' ip heap_okD(1)[OF h lk] ni show ?thesis by simp
    next
      case False
      from q lk' have qf: "lookup f g' t' = Some q" by simp
      from other[OF qf False] iq[of q] heap_okD(1)[OF h qf] ni show ?thesis by simp
    qed
  next
    fix g1 t1 g2 t2 q q'
    assume a: "lookup s' g1 t1 = Some q" "lookup s' g2 t2 = Some q'" "(g1, t1) \<noteq> (g2, t2)"
    then have af: "lookup f g1 t1 = Some q" "lookup f g2 t2 = Some q'" using lk' by simp_all
    show "q \<noteq> q' \<and> (cap (DDLs (infos s' q)) = 0 \<or> cap (DDLs (infos s' q')) = 0
              \<or> ptr (DDLs (infos s' q)) \<noteq> ptr (DDLs (infos s' q')))"
    proof (cases "(g1, t1) = (g, t)")
      case True
      with af lk have qp: "q = p" by simp
      from True a(3) have "(g2, t2) \<noteq> (g, t)" by auto
      from other[OF af(2) this] qp ip iq[of q'] show ?thesis by auto
    next
      case False
      note o1 = other[OF af(1) False]
      show ?thesis
      proof (cases "(g2, t2) = (g, t)")
        case True
        with af lk have "q' = p" by simp
        with o1 ip iq[of q] show ?thesis by auto
      next
        case False
        note o2 = other[OF af(2) False]
        from heap_okD(4,5)[OF h af a(3)] o1 o2 iq[of q] iq[of q'] show ?thesis by auto
      qed
    qed
  qed
qed

lemma Save_locked_heap_ok:
  assumes "heap_ok s"
  shows "heap_ok (snd (Save_locked E s g t rs rt ddl))"
proof (cases "lookup s g t")
  case None
  obtain err s' where r: "append_and_save E (fresh_entry s g t rs rt) g t (next_info s) ddl = (err, s')"
    by (cases "append_and_save E (fresh_entry s g t rs rt) g t (next_info s) ddl")
  from append_and_save_heap_ok[OF r _ fresh_entry_heap_ok[OF assms]] r None
  show ?thesis by (simp add: Save_locked_new fresh_entry_fields)
next
  case (Some p)
  obtain err s' where r: "append_and_save E s g t p ddl = (err, s')"
    by (cases "append_and_save E s g t p ddl")
  from append_and_save_heap_ok[OF r Some assms] r assms
  show ?thesis by (simp add: Save_locked_existing[OF Some])
qed

lemma heap_ok_rename:
  assumes h: "heap_ok s"
    and same: "infos s' = infos s" "arrays s' = arrays s" "next_info s' = next_info s"
      "next_array s' = next_array s"
    and old: "\<And>g t p. lookup s' g t = Some p \<Longrightarrow> lookup s (fst (k (g, t))) (snd (k (g, t))) = Some p"
    and inj: "\<And>g t g' t' p p'. lookup s' g t = Some p \<Longrightarrow> lookup s' g' t' = Some p' \<Longrightarrow>
                (g, t) \<noteq> (g', t') \<Longrightarrow> k (g, t) \<noteq> k (g', t')"
  shows "heap_ok s'"
proof (rule heap_okI)
  fix g t p assume "lookup s' g t = Some p"
  from heap_okD(1-3)[OF h old[OF this]] same
  show "p < next_info s' \<and> wf_slice s' (DDLs (infos s' p))
        \<and> (cap (DDLs (infos s' p)) = 0 \<or> ptr (DDLs (infos s' p)) < next_array s')"
    by (simp add: wf_slice_def)
next
  fix g t g' t' p p'
  assume a: "lookup s' g t = Some p" "lookup s' g' t' = Some p'" "(g, t) \<noteq> (g', t')"
  from inj[OF a] have "(fst (k (g, t)), snd (k (g, t))) \<noteq> (fst (k (g', t')), snd (k (g', t')))" by simp
  from heap_okD(4,5)[OF h old[OF a(1)] old[OF a(2)] this] same
  show "p \<noteq> p' \<and> (cap (DDLs (infos s' p)) = 0 \<or> cap (DDLs (infos s' p')) = 0
              \<or> ptr (DDLs (infos s' p)) \<noteq> ptr (DDLs (infos s' p')))"
    by simp
qed

lemma heap_ok_sub:
  assumes "heap_ok s" "infos s' = infos s" "arrays s' = arrays s" "next_info s' = next_info s"
      "next_array s' = next_array s"
    and "\<And>g t p. lookup s' g t = Some p \<Longrightarrow> lookup s g t = Some p"
  shows "heap_ok s'"
  by (rule heap_ok_rename[where k = "\<lambda>x. x", OF assms(1-5)]) (use assms(6) in auto)

lemma Save_heap_ok: "heap_ok s \<Longrightarrow> heap_ok (snd (Save E s g t rs rt ddl))"
  using Save_locked_heap_ok[of "emit Lock s" E g t rs rt ddl] by (simp add: Save_unfold)

lemma delete_heap_ok:
  assumes "heap_ok s"
  shows "heap_ok (snd (delete s g t))"
proof -
  obtain err s' where d: "delete s g t = (err, s')" by (cases "delete s g t")
  note fr = delete_frame[OF d]
  obtain r s1 where ex: "ExecuteSQL s (DeleteRow (id_src s) g t) = (r, s1)"
    by (cases "ExecuteSQL s (DeleteRow (id_src s) g t)")
  note xf = ExecuteSQL_frame[OF ex]
  have nx: "next_info s' = next_info s" "next_array s' = next_array s"
    using d ex xf by (auto simp: delete_def map_delete_def split: option.splits)
  have lk: "\<And>g' t' p. lookup s' g' t' = Some p \<Longrightarrow> lookup s g' t' = Some p"
  proof -
    fix g' t' p assume a: "lookup s' g' t' = Some p"
    show "lookup s g' t' = Some p"
    proof (cases "map_of (ddls s) g")
      case None
      with d a show ?thesis by (simp add: delete_def)
    next
      case (Some m)
      with d ex have "s' = s1 \<or> s' = map_delete s1 g t" by (auto simp: delete_def split: option.splits)
      then show ?thesis
      proof
        assume "s' = s1"
        with a xf(1) show ?thesis by (simp add: lookup_def)
      next
        assume s': "s' = map_delete s1 g t"
        have "map_of (ddls s1) g \<noteq> None" using xf(1) Some by simp
        from lookup_map_delete[OF this, of t g' t'] a s' have "lookup s1 g' t' = Some p"
          by (auto split: if_splits)
        with xf(1) show ?thesis by (simp add: lookup_def)
      qed
    qed
  qed
  from heap_ok_sub[OF assms fr(1) fr(2) nx lk] d show ?thesis by simp
qed

lemma Delete_heap_ok: "heap_ok s \<Longrightarrow> heap_ok (snd (Delete s g t))"
  using delete_heap_ok[of "emit Lock s" g t] by (simp add: Delete_def with_Lock_beta)

lemma Clear_heap_ok:
  assumes "heap_ok s"
  shows "heap_ok (snd (Clear s))"
proof -
  obtain r s2 where ex: "ExecuteSQL (emit Lock s) (DeleteAll (id_src (emit Lock s))) = (r, s2)"
    by (cases "ExecuteSQL (emit Lock s) (DeleteAll (id_src (emit Lock s)))")
  note xf = ExecuteSQL_frame[OF ex]
  have 1: "heap_ok (s2\<lparr>ddls := []\<rparr>)" by (simp add: heap_ok_def lookup_def)
  have 2: "heap_ok s2" by (rule heap_ok_cong[of "emit Lock s"]) (use assms xf in simp_all)
  from ex 1 2 show ?thesis by (cases r) (simp_all add: Clear_def with_Lock_beta)
qed

lemma Get_heap_ok:
  assumes "heap_ok s"
  shows "heap_ok (snd (Get s g t))"
proof (cases "lookup s g t")
  case None
  then have "snd (Get s g t) = emit RUnlock (emit RLock s)"
    by (auto simp: Get_def with_Lock_beta lookup_def split: option.splits)
  with assms show ?thesis by simp
next
  case (Some p)
  note G = Get_present[OF Some]
  let ?s' = "snd (Get s g t)"
  have ni: "next_info ?s' = Suc (next_info s)" "next_array ?s' = next_array s"
    using Some by (auto simp: Get_def with_Lock_beta new_info_def lookup_def split: option.splits)
  have lk: "\<And>g' t'. lookup ?s' g' t' = lookup s g' t'" using G(3) by (simp add: lookup_def)
  have iq: "\<And>g' t' q. lookup s g' t' = Some q \<Longrightarrow> infos ?s' q = infos s q"
    using heap_okD(1)[OF assms] G(2) by fastforce
  show ?thesis
  proof (rule heap_okI)
    fix g' t' q assume "lookup ?s' g' t' = Some q"
    then have q: "lookup s g' t' = Some q" by (simp add: lk)
    from heap_okD(1-3)[OF assms q] iq[OF q] ni G(4)
    show "q < next_info ?s' \<and> wf_slice ?s' (DDLs (infos ?s' q))
        \<and> (cap (DDLs (infos ?s' q)) = 0 \<or> ptr (DDLs (infos ?s' q)) < next_array ?s')"
      by (simp add: wf_slice_def)
  next
    fix g1 t1 g2 t2 q q'
    assume "lookup ?s' g1 t1 = Some q" "lookup ?s' g2 t2 = Some q'" and ne: "(g1, t1) \<noteq> (g2, t2)"
    then have q: "lookup s g1 t1 = Some q" "lookup s g2 t2 = Some q'" by (simp_all add: lk)
    from heap_okD(4,5)[OF assms q ne] iq[OF q(1)] iq[OF q(2)]
    show "q \<noteq> q' \<and> (cap (DDLs (infos ?s' q)) = 0 \<or> cap (DDLs (infos ?s' q')) = 0
              \<or> ptr (DDLs (infos ?s' q)) \<noteq> ptr (DDLs (infos ?s' q')))"
      by simp
  qed
qed

lemma Load_row_result:
  "lookup (snd (Load_row E s g t d)) g' t' = (if (g', t') = (g, t) then Some (next_info s) else lookup s g' t')"
  "infos (snd (Load_row E s g t d)) =
     (infos s)(next_info s := \<lparr>Schema = fst (snd (json_Unmarshal E d)), Table = fst (snd (snd (json_Unmarshal E d))),
        DDLs = \<lparr>ptr = next_array s, len = length (snd (snd (snd (json_Unmarshal E d)))),
                 cap = length (snd (snd (snd (json_Unmarshal E d))))\<rparr>\<rparr>)"
  "arrays (snd (Load_row E s g t d)) = (arrays s)(next_array s := snd (snd (snd (json_Unmarshal E d))))"
  "next_info (snd (Load_row E s g t d)) = Suc (next_info s)"
  "next_array (snd (Load_row E s g t d)) = Suc (next_array s)"
  by (auto simp: Load_row_def Unmarshal_into_def new_info_def Let_def lookup_map_store_gen map_store_def
      lookup_def mSchema_of_def update_conv'
      split: prod.splits option.splits)

lemma Load_row_heap_ok:
  assumes h: "heap_ok s"
  shows "heap_ok (snd (Load_row E s g t d))"
proof -
  let ?s' = "snd (Load_row E s g t d)"
  note R = Load_row_result[of E s g t d]
  have new: "lookup ?s' g t = Some (next_info s)" by (simp add: R(1))
  have other: "\<And>g' t'. (g', t') \<noteq> (g, t) \<Longrightarrow> lookup ?s' g' t' = lookup s g' t'"
    by (auto simp: R(1))
  have oldq: "\<And>g' t' q. lookup s g' t' = Some q \<Longrightarrow>
      q \<noteq> next_info s \<and> infos ?s' q = infos s q \<and> wf_slice ?s' (DDLs (infos s q))
      \<and> (cap (DDLs (infos s q)) = 0 \<or> ptr (DDLs (infos s q)) < next_array s)"
  proof -
    fix g' t' q assume q: "lookup s g' t' = Some q"
    note d = heap_okD(1-3)[OF h q]
    from d(1) have 1: "q \<noteq> next_info s" by simp
    then have 2: "infos ?s' q = infos s q" by (simp add: R(2))
    have 3: "wf_slice ?s' (DDLs (infos s q))"
      using d(2,3) by (auto simp: wf_slice_def R(3))
    from 1 2 3 d(3) show "q \<noteq> next_info s \<and> infos ?s' q = infos s q \<and> wf_slice ?s' (DDLs (infos s q))
      \<and> (cap (DDLs (infos s q)) = 0 \<or> ptr (DDLs (infos s q)) < next_array s)" by simp
  qed
  have newp: "wf_slice ?s' (DDLs (infos ?s' (next_info s)))" "ptr (DDLs (infos ?s' (next_info s))) = next_array s"
    by (simp_all add: R(2,3) wf_slice_def)
  show ?thesis
  proof (rule heap_okI)
    fix g' t' q assume q: "lookup ?s' g' t' = Some q"
    show "q < next_info ?s' \<and> wf_slice ?s' (DDLs (infos ?s' q))
        \<and> (cap (DDLs (infos ?s' q)) = 0 \<or> ptr (DDLs (infos ?s' q)) < next_array ?s')"
    proof (cases "(g', t') = (g, t)")
      case True
      with q new have "q = next_info s" by simp
      with newp show ?thesis by (simp add: R(4,5))
    next
      case False
      from q have qs: "lookup s g' t' = Some q" by (simp add: other[OF False])
      from oldq[OF qs] heap_okD(1)[OF h qs] show ?thesis by (auto simp: R(4,5))
    qed
  next
    fix g1 t1 g2 t2 q q'
    assume a: "lookup ?s' g1 t1 = Some q" "lookup ?s' g2 t2 = Some q'" "(g1, t1) \<noteq> (g2, t2)"
    show "q \<noteq> q' \<and> (cap (DDLs (infos ?s' q)) = 0 \<or> cap (DDLs (infos ?s' q')) = 0
              \<or> ptr (DDLs (infos ?s' q)) \<noteq> ptr (DDLs (infos ?s' q')))"
    proof (cases "(g1, t1) = (g, t)")
      case True
      with a(1) new have q: "q = next_info s" by simp
      from True a(3) have ne2: "(g2, t2) \<noteq> (g, t)" by auto
      from a(2) have "lookup s g2 t2 = Some q'" by (simp add: other[OF ne2])
      from oldq[OF this] q newp(2) show ?thesis by auto
    next
      case False
      from a(1) have q: "lookup s g1 t1 = Some q" by (simp add: other[OF False])
      show ?thesis
      proof (cases "(g2, t2) = (g, t)")
        case True
        with a(2) new have "q' = next_info s" by simp
        with oldq[OF q] newp(2) show ?thesis by auto
      next
        case False
        from a(2) have q': "lookup s g2 t2 = Some q'" by (simp add: other[OF False])
        from heap_okD(4,5)[OF h q q' a(3)] oldq[OF q] oldq[OF q'] show ?thesis by auto
      qed
    qed
  qed
qed

lemma Load_rows_heap_ok: "heap_ok s \<Longrightarrow> heap_ok (snd (Load_rows E s scans))"
proof (induction scans arbitrary: s)
  case Nil
  then show ?case by simp
next
  case (Cons r scans)
  show ?case
  proof (cases r)
    case (ScanError e)
    with Cons.prems show ?thesis by simp
  next
    case (Scanned g t d)
    obtain u s' where l: "Load_row E s g t d = (u, s')" by (cases "Load_row E s g t d")
    have "heap_ok s'" using Load_row_heap_ok[OF Cons.prems, of E g t d] l by simp
    with Cons.IH[of s'] l Scanned show ?thesis by (cases u) simp_all
  qed
qed

lemma Load_heap_ok:
  assumes "heap_ok s"
  shows "heap_ok (snd (Load E s qr))"
proof (cases qr)
  case (QueryFailed e)
  with assms show ?thesis by (simp add: Load_def with_Lock_beta)
next
  case (Cursor scans rows_err)
  let ?s1 = "emit (Query (id_src (emit Lock s)) None) (emit Lock s)"
  obtain u s' where l: "Load_rows E ?s1 scans = (u, s')" by (cases "Load_rows E ?s1 scans")
  have "heap_ok s'" using Load_rows_heap_ok[of ?s1 E scans] assms l by simp
  with Cursor l show ?thesis by (cases u) (simp_all add: Load_def with_Lock_beta)
qed

lemma heap_ok_DDLs_cong:
  assumes "heap_ok s" "ddls s' = ddls s" "arrays s' = arrays s"
    "next_info s' = next_info s" "next_array s' = next_array s"
    "\<And>q. DDLs (infos s' q) = DDLs (infos s q)"
  shows "heap_ok s'"
  using assms(1) unfolding heap_ok_def wf_slice_def lookup_def assms(2-6) .

lemma migrate_heap_ok:
  assumes "heap_ok s"
  shows "heap_ok (snd (migrate E rn s schema tbl realSchema realTbl p))"
proof -
  let ?s1 = "s\<lparr>infos := (infos s)(p := (infos s p)\<lparr>Table := rn realTbl\<rparr>)\<rparr>"
  have h1: "heap_ok ?s1" by (rule heap_ok_DDLs_cong[OF assms]) simp_all
  obtain e2 s2 where sv: "saveToDB E ?s1 realSchema realTbl p = (e2, s2)"
    by (cases "saveToDB E ?s1 realSchema realTbl p")
  note fr = saveToDB_frame[OF sv]
  have h2: "heap_ok s2" by (rule heap_ok_cong[OF h1]) (use fr in simp_all)
  from sv h2 delete_heap_ok[OF h2, of schema tbl] show ?thesis
    by (cases e2) (simp_all add: migrate_def)
qed

lemma range_tables_heap_ok:
  "heap_ok s \<Longrightarrow> heap_ok (snd (range_tables E rn schema realSchema hasChange tblMap s entries))"
proof (induction entries arbitrary: s)
  case Nil
  then show ?case by simp
next
  case (Cons a entries)
  obtain tbl p where a: "a = (tbl, p)" by (cases a)
  let ?realTbl = "case tblMap tbl of Some r \<Rightarrow> r | None \<Rightarrow> tbl"
  obtain err s' where m: "migrate E rn s schema tbl realSchema ?realTbl p = (err, s')"
    by (cases "migrate E rn s schema tbl realSchema ?realTbl p")
  have h': "heap_ok s'" using migrate_heap_ok[OF Cons.prems, of E rn schema tbl realSchema ?realTbl p] m by simp
  show ?case using Cons.IH[OF Cons.prems] Cons.IH[OF h'] h' m
    by (cases err) (auto simp: a split: option.splits)
qed

lemma range_schemas_heap_ok:
  "heap_ok s \<Longrightarrow> heap_ok (snd (snd (range_schemas E rn sm tm s changed keys)))"
proof (induction keys arbitrary: s changed)
  case Nil
  then show ?case by simp
next
  case (Cons schema keys)
  let ?r = "range_tables E rn schema (case sm schema of Some r \<Rightarrow> r | None \<Rightarrow> schema) (sm schema \<noteq> None)
              (case tm schema of Some m \<Rightarrow> m | None \<Rightarrow> Map.empty) s (mSchema_of s schema)"
  obtain err s' where r: "?r = (err, s')" by (cases ?r)
  have h': "heap_ok s'" using range_tables_heap_ok[OF Cons.prems] r by (metis snd_conv)
  show ?case using Cons.IH[OF h'] h' r
    by (cases err; cases "sm schema") simp_all
qed

lemma lookup_rekey_step:
  "lookup (s\<lparr>ddls := AList.delete schema (AList.update tgt (mSchema_of s schema) (ddls s))\<rparr>) g t =
     (if g = schema then None else if g = tgt then lookup s schema t else lookup s g t)"
  by (auto simp: lookup_def mSchema_of_def update_conv' delete_conv' split: option.splits)

lemma rekey_heap_ok: "heap_ok s \<Longrightarrow> heap_ok (rekey sm s keys)"
proof (induction keys arbitrary: s)
  case Nil
  then show ?case by simp
next
  case (Cons schema keys)
  let ?tgt = "case sm schema of Some r \<Rightarrow> r | None \<Rightarrow> []"
  let ?s' = "s\<lparr>ddls := AList.delete schema (AList.update ?tgt (mSchema_of s schema) (ddls s))\<rparr>"
  have "heap_ok ?s'"
  proof (rule heap_ok_rename[where k = "\<lambda>(g, t). if g = ?tgt then (schema, t) else (g, t)", OF Cons.prems])
    fix g t p assume "lookup ?s' g t = Some p"
    then show "lookup s (fst (case (g, t) of (g, t) \<Rightarrow> if g = ?tgt then (schema, t) else (g, t)))
        (snd (case (g, t) of (g, t) \<Rightarrow> if g = ?tgt then (schema, t) else (g, t))) = Some p"
      by (auto simp: lookup_rekey_step split: if_splits)
  next
    fix g t g' t' p p'
    assume "lookup ?s' g t = Some p" "lookup ?s' g' t' = Some p'" "(g, t) \<noteq> (g', t')"
    then show "(case (g, t) of (g, t) \<Rightarrow> if g = ?tgt then (schema, t) else (g, t))
          \<noteq> (case (g', t') of (g, t) \<Rightarrow> if g = ?tgt then (schema, t) else (g, t))"
      by (auto simp: lookup_rekey_step split: if_splits)
  qed simp_all
  from Cons.IH[OF this] show ?case by simp
qed

lemma CheckAndUpdate_heap_ok:
  assumes "heap_ok s"
  shows "heap_ok (snd (CheckAndUpdate E s sm tm rn))"
proof -
  let ?s1 = "emit Lock s"
  obtain err ch s' where r: "range_schemas E rn sm tm ?s1 [] (map fst (ddls ?s1)) = (err, ch, s')"
    by (cases "range_schemas E rn sm tm ?s1 [] (map fst (ddls ?s1))")
  have "heap_ok s'" using range_schemas_heap_ok[of ?s1 E rn sm tm "[]" "map fst (ddls ?s1)"] assms r by simp
  with r rekey_heap_ok[of s' sm ch] show ?thesis
    by (cases err) (simp_all add: CheckAndUpdate_def with_Lock_beta)
qed

theorem CheckAndUpdate_breaks_mirror:
  "mirrored example_env example_store
   \<and> fst (CheckAndUpdate example_env example_store [''g1'' \<mapsto> ''g2''] Map.empty id) = None
   \<and> \<not> mirrored example_env (snd (CheckAndUpdate example_env example_store [''g1'' \<mapsto> ''g2''] Map.empty id))"
proof (intro conjI)
  show "mirrored example_env example_store"
    by (auto simp: mirrored_def example_store_eq example_env_def lookup_def contents_of_def elems_def
        split: option.splits if_splits)
  show "fst (CheckAndUpdate example_env example_store [''g1'' \<mapsto> ''g2''] Map.empty id) = None"
    by (simp add: reconciled_eq)
  show "\<not> mirrored example_env (snd (CheckAndUpdate example_env example_store [''g1'' \<mapsto> ''g2''] Map.empty id))"
  proof
    assume m: "mirrored example_env (snd (CheckAndUpdate example_env example_store [''g1'' \<mapsto> ''g2''] Map.empty id))"
    from m[unfolded mirrored_def, THEN spec, THEN spec, of "''g2''" "''t1''"]
    show False
      by (simp add: reconciled_eq lookup_def)
  qed
qed

lemma record_at_frame_lookup:
  assumes "ddls s' = ddls s" "arrays s' = arrays s"
    and "\<And>g' t' q. lookup s g' t' = Some q \<Longrightarrow> infos s' q = infos s q"
  shows "record_at s' g t = record_at s g t"
proof (cases "lookup s g t")
  case None
  then show ?thesis using assms(1) by (simp add: record_at_def lookup_def)
next
  case (Some q)
  with assms(3) have "infos s' q = infos s q" by blast
  with Some assms(1,2) show ?thesis
    by (simp add: record_at_def lookup_def contents_of_def elems_def)
qed

lemma mirrored_example_store: "mirrored example_env example_store"
  by (auto simp: mirrored_def example_store_eq example_env_def lookup_def contents_of_def elems_def
      split: option.splits if_splits)

lemma heap_ok_example_store: "heap_ok example_store"
  unfolding example_store_def by (intro Save_heap_ok heap_ok_New)

lemma migrate_success_lookup:
  assumes pres: "map_of (ddls s) schema \<noteq> None"
    and run: "migrate E rn s schema tbl realSchema realTbl p = (None, s')"
  shows "lookup s' g t = (if (g, t) = (schema, tbl) then None else lookup s g t)"
    and "map_of (ddls s') schema \<noteq> None"
proof -
  let ?s1 = "s\<lparr>infos := (infos s)(p := (infos s p)\<lparr>Table := rn realTbl\<rparr>)\<rparr>"
  obtain e2 s2 where sv: "saveToDB E ?s1 realSchema realTbl p = (e2, s2)"
    by (cases "saveToDB E ?s1 realSchema realTbl p")
  note fr = saveToDB_frame[OF sv]
  from run sv have e2: "e2 = None" and d: "delete s2 schema tbl = (None, s')"
    by (auto simp: migrate_def split: option.splits)
  have pres2: "map_of (ddls s2) schema \<noteq> None" using fr(1) pres by simp
  obtain r s3 where ex: "ExecuteSQL s2 (DeleteRow (id_src s2) schema tbl) = (r, s3)"
    by (cases "ExecuteSQL s2 (DeleteRow (id_src s2) schema tbl)")
  note xf = ExecuteSQL_frame[OF ex]
  from d ex pres2 have r: "r = None" and s': "s' = map_delete s3 schema tbl"
    by (auto simp: delete_def WithScope_def split: option.splits)
  have pres3: "map_of (ddls s3) schema \<noteq> None" using xf(1) pres2 by simp
  have "lookup s3 g t = lookup s g t" using xf(1) fr(1) by (simp add: lookup_def)
  with lookup_map_delete[OF pres3, of tbl g t] s'
  show "lookup s' g t = (if (g, t) = (schema, tbl) then None else lookup s g t)" by simp
  show "map_of (ddls s') schema \<noteq> None"
    using s' by (simp add: map_delete_def update_conv')
qed

lemma range_tables_all_change:
  assumes "map_of (ddls s) schema \<noteq> None"
    and "range_tables E rn schema realSchema True Map.empty s entries = (None, s')"
  shows "lookup s' g t = (if g = schema \<and> t \<in> fst ` set entries then None else lookup s g t)
       \<and> map_of (ddls s') schema \<noteq> None"
  using assms
proof (induction entries arbitrary: s)
  case Nil
  then show ?case by simp
next
  case (Cons a entries)
  obtain tbl p where a: "a = (tbl, p)" by (cases a)
  obtain err s1 where m: "migrate E rn s schema tbl realSchema tbl p = (err, s1)"
    by (cases "migrate E rn s schema tbl realSchema tbl p")
  from Cons.prems(2) m have err: "err = None"
    and rest: "range_tables E rn schema realSchema True Map.empty s1 entries = (None, s')"
    by (auto simp: a split: option.splits)
  note ms = migrate_success_lookup[OF Cons.prems(1) m[unfolded err]]
  from Cons.IH[OF ms(2) rest] ms(1)[of g t] show ?case by (auto simp: a)
qed

lemma range_tables_no_change:
  "range_tables E rn schema realSchema False Map.empty s entries = (None, s)"
  by (induction entries) auto

lemma range_schemas_rename_one:
  assumes sm: "sm g1 = Some g2" "\<And>k. k \<noteq> g1 \<Longrightarrow> sm k = None"
    and "range_schemas E rn sm Map.empty s changed keys = (None, ch', s')"
    and "g1 \<in> set keys \<longrightarrow> map_of (ddls s) g1 \<noteq> None"
    and "g1 \<in> set changed \<longrightarrow> (\<forall>t. lookup s g1 t = None)"
    and "set changed \<subseteq> {g1}"
  shows "set ch' \<subseteq> {g1} \<and> (g1 \<in> set keys \<or> g1 \<in> set changed \<longrightarrow> g1 \<in> set ch' \<and> (\<forall>t. lookup s' g1 t = None))"
  using assms(3-)
proof (induction keys arbitrary: s changed)
  case Nil
  then show ?case by auto
next
  case (Cons schema keys)
  show ?case
  proof (cases "schema = g1")
    case False
    with Cons.prems(1) have "range_schemas E rn sm Map.empty s changed keys = (None, ch', s')"
      by (simp add: range_tables_no_change sm(2))
    from Cons.IH[OF this] Cons.prems(2,3,4) False show ?thesis by auto
  next
    case True
    obtain err s1 where r: "range_tables E rn g1 g2 True Map.empty s (mSchema_of s g1) = (err, s1)"
      by (cases "range_tables E rn g1 g2 True Map.empty s (mSchema_of s g1)")
    from Cons.prems(1) True r have err: "err = None"
      and rest: "range_schemas E rn sm Map.empty s1 (changed @ [g1]) keys = (None, ch', s')"
      by (auto simp: sm(1) split: option.splits)
    from Cons.prems(2) True have pres: "map_of (ddls s) g1 \<noteq> None" by simp
    note A = range_tables_all_change[OF pres r[unfolded err]]
    have empty1: "\<forall>t. lookup s1 g1 t = None"
    proof
      fix t
      show "lookup s1 g1 t = None"
      proof (cases "t \<in> fst ` set (mSchema_of s g1)")
        case True
        with A[of g1 t] show ?thesis by simp
      next
        case False
        then have "map_of (mSchema_of s g1) t = None" by (simp add: map_of_eq_None_iff)
        then have "lookup s g1 t = None" by (simp add: lookup_def mSchema_of_def split: option.splits)
        with A[of g1 t] False show ?thesis by simp
      qed
    qed
    have "set ch' \<subseteq> {g1} \<and> (g1 \<in> set keys \<or> g1 \<in> set (changed @ [g1]) \<longrightarrow> g1 \<in> set ch' \<and> (\<forall>t. lookup s' g1 t = None))"
      by (rule Cons.IH[OF rest]) (use A empty1 Cons.prems(4) in auto)
    then show ?thesis by auto
  qed
qed

lemma rekey_rename_one:
  assumes sm: "sm g1 = Some g2"
    and "set keys \<subseteq> {g1}" "keys \<noteq> []" "\<forall>t. lookup s g1 t = None"
  shows "lookup (rekey sm s keys) g2 t = None \<and> lookup (rekey sm s keys) g1 t = None"
  using assms(2-)
proof (induction keys arbitrary: s)
  case Nil
  then show ?case by simp
next
  case (Cons k keys)
  then have k: "k = g1" by auto
  let ?s' = "s\<lparr>ddls := AList.delete g1 (AList.update g2 (mSchema_of s g1) (ddls s))\<rparr>"
  have l: "\<forall>t. lookup ?s' g1 t = None" "\<forall>t. lookup ?s' g2 t = None"
    using Cons.prems(3) by (simp_all add: lookup_rekey_step)
  show ?case
  proof (cases "keys = []")
    case True
    with l k show ?thesis by (simp add: sm)
  next
    case False
    from Cons.IH[OF _ False l(1)] Cons.prems(1) k show ?thesis by (simp add: sm)
  qed
qed

lemma Get_absent: "lookup s g t = None \<Longrightarrow> fst (Get s g t) = None"
  by (auto simp: Get_def with_Lock_beta lookup_def split: option.splits)

lemma CheckAndUpdate_schema_rename_drops_records:
  assumes "map_of (ddls s) g1 \<noteq> None"
    and "fst (CheckAndUpdate E s [g1 \<mapsto> g2] Map.empty rn) = None"
  shows "fst (Get (snd (CheckAndUpdate E s [g1 \<mapsto> g2] Map.empty rn)) g2 t) = None
       \<and> fst (Get (snd (CheckAndUpdate E s [g1 \<mapsto> g2] Map.empty rn)) g1 t) = None"
proof -
  let ?s1 = "emit Lock s"
  obtain err ch s' where r: "range_schemas E rn [g1 \<mapsto> g2] Map.empty ?s1 [] (map fst (ddls ?s1)) = (err, ch, s')"
    by (cases "range_schemas E rn [g1 \<mapsto> g2] Map.empty ?s1 [] (map fst (ddls ?s1))")
  from assms(2) r have err: "err = None"
    and res: "snd (CheckAndUpdate E s [g1 \<mapsto> g2] Map.empty rn) = emit Unlock (rekey [g1 \<mapsto> g2] s' ch)"
    by (auto simp: CheckAndUpdate_def with_Lock_beta split: option.splits)
  from assms(1) have key: "g1 \<in> set (map fst (ddls ?s1))"
    by (auto simp: map_of_eq_None_iff)
  have "set ch \<subseteq> {g1} \<and> (g1 \<in> set (map fst (ddls ?s1)) \<or> g1 \<in> set [] \<longrightarrow> g1 \<in> set ch \<and> (\<forall>t. lookup s' g1 t = None))"
    by (rule range_schemas_rename_one[OF _ _ r[unfolded err]]) (use assms(1) in auto)
  with key have ch: "set ch \<subseteq> {g1}" "ch \<noteq> []" "\<forall>t. lookup s' g1 t = None" by auto
  from rekey_rename_one[OF _ ch, of "[g1 \<mapsto> g2]" g2 t] res show ?thesis by (simp add: Get_absent)
qed

lemma range_tables_rename_one:
  assumes tm: "tblMap t1 = Some t2" "\<And>k. k \<noteq> t1 \<Longrightarrow> tblMap k = None"
    and "map_of (ddls s) schema \<noteq> None"
    and "range_tables E rn schema realSchema False tblMap s entries = (None, s')"
  shows "lookup s' g t = (if g = schema \<and> t = t1 \<and> t1 \<in> fst ` set entries then None else lookup s g t)
       \<and> map_of (ddls s') schema \<noteq> None"
  using assms(3-)
proof (induction entries arbitrary: s)
  case Nil
  then show ?case by simp
next
  case (Cons a entries)
  obtain tbl p where a: "a = (tbl, p)" by (cases a)
  show ?case
  proof (cases "tbl = t1")
    case False
    with Cons.prems(2) have "range_tables E rn schema realSchema False tblMap s entries = (None, s')"
      by (simp add: a tm(2))
    from Cons.IH[OF Cons.prems(1) this] False show ?thesis by (auto simp: a)
  next
    case True
    obtain err s1 where m: "migrate E rn s schema t1 realSchema t2 p = (err, s1)"
      by (cases "migrate E rn s schema t1 realSchema t2 p")
    from Cons.prems(2) m True have err: "err = None"
      and rest: "range_tables E rn schema realSchema False tblMap s1 entries = (None, s')"
      by (auto simp: a tm(1) split: option.splits)
    note ms = migrate_success_lookup[OF Cons.prems(1) m[unfolded err]]
    from Cons.IH[OF ms(2) rest] ms(1)[of g t] True show ?thesis by (auto simp: a)
  qed
qed

lemma range_schemas_table_rename:
  assumes tm: "tm g1 = Some tblMap" "\<And>k. k \<noteq> g1 \<Longrightarrow> tm k = None"
    and tb: "tblMap t1 = Some t2" "\<And>k. k \<noteq> t1 \<Longrightarrow> tblMap k = None"
    and "range_schemas E rn Map.empty tm s changed keys = (None, ch', s')"
    and "g1 \<in> set keys \<longrightarrow> map_of (ddls s) g1 \<noteq> None"
  shows "ch' = changed
       \<and> (\<forall>t. (g, t) \<noteq> (g1, t1) \<longrightarrow> lookup s' g t = lookup s g t)
       \<and> (g1 \<in> set keys \<longrightarrow> lookup s' g1 t1 = None)
       \<and> (lookup s g1 t1 = None \<longrightarrow> lookup s' g1 t1 = None)
       \<and> (map_of (ddls s) g1 \<noteq> None \<longrightarrow> map_of (ddls s') g1 \<noteq> None)"
  using assms(5-)
proof (induction keys arbitrary: s)
  case Nil
  then show ?case by auto
next
  case (Cons schema keys)
  show ?case
  proof (cases "schema = g1")
    case False
    with Cons.prems(1) have "range_schemas E rn Map.empty tm s changed keys = (None, ch', s')"
      by (simp add: range_tables_no_change tm(2))
    from Cons.IH[OF this] Cons.prems(2) False show ?thesis by auto
  next
    case True
    obtain err s1 where r: "range_tables E rn g1 g1 False tblMap s (mSchema_of s g1) = (err, s1)"
      by (cases "range_tables E rn g1 g1 False tblMap s (mSchema_of s g1)")
    from Cons.prems(1) True r have err: "err = None"
      and rest: "range_schemas E rn Map.empty tm s1 changed keys = (None, ch', s')"
      by (auto simp: tm(1) split: option.splits)
    from Cons.prems(2) True have pres: "map_of (ddls s) g1 \<noteq> None" by simp
    note A = range_tables_rename_one[OF tb pres r[unfolded err]]
    have gone: "lookup s1 g1 t1 = None"
    proof (cases "t1 \<in> fst ` set (mSchema_of s g1)")
      case True
      with A[of g1 t1] show ?thesis by simp
    next
      case False
      then have "map_of (mSchema_of s g1) t1 = None" by (simp add: map_of_eq_None_iff)
      then have "lookup s g1 t1 = None" by (simp add: lookup_def mSchema_of_def split: option.splits)
      with A[of g1 t1] False show ?thesis by simp
    qed
    have other: "\<And>t. (g, t) \<noteq> (g1, t1) \<Longrightarrow> lookup s1 g t = lookup s g t"
      using A by auto
    have pres1: "map_of (ddls s1) g1 \<noteq> None" using A by simp
    from Cons.IH[OF rest] pres1 gone other show ?thesis by auto
  qed
qed

lemma CheckAndUpdate_table_rename_drops_record:
  assumes "map_of (ddls s) g1 \<noteq> None"
    and "fst (CheckAndUpdate E s Map.empty [g1 \<mapsto> [t1 \<mapsto> t2]] rn) = None"
  shows "fst (Get (snd (CheckAndUpdate E s Map.empty [g1 \<mapsto> [t1 \<mapsto> t2]] rn)) g1 t1) = None
       \<and> (t2 \<noteq> t1 \<longrightarrow> lookup (snd (CheckAndUpdate E s Map.empty [g1 \<mapsto> [t1 \<mapsto> t2]] rn)) g1 t2 = lookup s g1 t2)"
proof -
  let ?s1 = "emit Lock s"
  let ?tm = "[g1 \<mapsto> [t1 \<mapsto> t2]]"
  obtain err ch s' where r: "range_schemas E rn Map.empty ?tm ?s1 [] (map fst (ddls ?s1)) = (err, ch, s')"
    by (cases "range_schemas E rn Map.empty ?tm ?s1 [] (map fst (ddls ?s1))")
  from assms(2) r have err: "err = None"
    and res: "snd (CheckAndUpdate E s Map.empty ?tm rn) = emit Unlock (rekey Map.empty s' ch)"
    by (auto simp: CheckAndUpdate_def with_Lock_beta split: option.splits)
  from assms(1) have key: "g1 \<in> set (map fst (ddls ?s1))"
    by (auto simp: map_of_eq_None_iff)
  have R: "\<And>g. ch = []
       \<and> (\<forall>t. (g, t) \<noteq> (g1, t1) \<longrightarrow> lookup s' g t = lookup ?s1 g t)
       \<and> (g1 \<in> set (map fst (ddls ?s1)) \<longrightarrow> lookup s' g1 t1 = None)
       \<and> (lookup ?s1 g1 t1 = None \<longrightarrow> lookup s' g1 t1 = None)
       \<and> (map_of (ddls ?s1) g1 \<noteq> None \<longrightarrow> map_of (ddls s') g1 \<noteq> None)"
    by (rule range_schemas_table_rename[where tm = ?tm and tblMap = "[t1 \<mapsto> t2]" and ?t2.0 = t2,
          OF _ _ _ _ r[unfolded err]]) (use assms(1) in auto)
  from R[of g1] key res show ?thesis by (auto simp: Get_absent)
qed

section \<open>The claims\<close>

text \<open>
  Claim C1. The store holds one Record under (g1, t1), put there by \<open>Save\<close>. A
  \<open>CheckAndUpdate\<close> with the schema map {g1 -> g2} and no table map succeeds; afterwards
  \<open>Get\<close> finds nothing under (g2, t1) and nothing under (g1, t1), while the durable row
  (g2, t1) holds the Record. The same with the table map {g1: {t1 -> t2}} and no schema
  map: nothing under (g1, t2), nothing under (g1, t1), the row is under (g1, t2). The
  helper \<open>delete\<close> removes the entry from the map in memory, and nothing puts it back
  under the new key.
\<close>

theorem CheckAndUpdate_loses_renamed_record:
  "record_at example_store ''g1'' ''t1'' = Some (''db'', ''tbl'', [''ALTER TABLE t1 ADD c INT''])
   \<and> fst (CheckAndUpdate example_env example_store [''g1'' \<mapsto> ''g2''] Map.empty id) = None
   \<and> fst (Get (snd (CheckAndUpdate example_env example_store [''g1'' \<mapsto> ''g2''] Map.empty id)) ''g2'' ''t1'') = None
   \<and> fst (Get (snd (CheckAndUpdate example_env example_store [''g1'' \<mapsto> ''g2''] Map.empty id)) ''g1'' ''t1'') = None
   \<and> rows (snd (CheckAndUpdate example_env example_store [''g1'' \<mapsto> ''g2''] Map.empty id)) (''mysql-01'', ''g2'', ''t1'')
       = Some ''db.t1:ALTER TABLE t1 ADD c INT''
   \<and> fst (CheckAndUpdate example_env example_store Map.empty [''g1'' \<mapsto> [''t1'' \<mapsto> ''t2'']] id) = None
   \<and> fst (Get (snd (CheckAndUpdate example_env example_store Map.empty [''g1'' \<mapsto> [''t1'' \<mapsto> ''t2'']] id)) ''g1'' ''t2'') = None
   \<and> fst (Get (snd (CheckAndUpdate example_env example_store Map.empty [''g1'' \<mapsto> [''t1'' \<mapsto> ''t2'']] id)) ''g1'' ''t1'') = None
   \<and> rows (snd (CheckAndUpdate example_env example_store Map.empty [''g1'' \<mapsto> [''t1'' \<mapsto> ''t2'']] id)) (''mysql-01'', ''g1'', ''t2'')
       = Some ''db.t2:ALTER TABLE t1 ADD c INT''"
  by (simp add: example_store_eq example_env_def run_defs)

text \<open>
  Claim C2, as stated, fails. The store is empty and so is the table; the connection
  fails the next statement. \<open>Save\<close> returns an error, having appended the DDL in memory;
  the same \<open>Save\<close> again returns success, and the Record in memory has no row.
\<close>

theorem retried_Save_succeeds_without_row:
  "mirrored example_env ((NewOnlineDDLStorage ''mysql-01'')\<lparr>faults := [Some (Cause ''connection reset'')]\<rparr>)
   \<and> fst (Save example_env ((NewOnlineDDLStorage ''mysql-01'')\<lparr>faults := [Some (Cause ''connection reset'')]\<rparr>)
             ''g1'' ''t1'' ''db'' ''tbl'' ''ALTER a'')
       = Some (Scoped ScopeDownstream (Scoped ScopeDownstream (Cause ''connection reset'')))
   \<and> fst (Save example_env
        (snd (Save example_env ((NewOnlineDDLStorage ''mysql-01'')\<lparr>faults := [Some (Cause ''connection reset'')]\<rparr>)
             ''g1'' ''t1'' ''db'' ''tbl'' ''ALTER a'')) ''g1'' ''t1'' ''db'' ''tbl'' ''ALTER a'') = None
   \<and> \<not> mirrored example_env (snd (Save example_env
        (snd (Save example_env ((NewOnlineDDLStorage ''mysql-01'')\<lparr>faults := [Some (Cause ''connection reset'')]\<rparr>)
             ''g1'' ''t1'' ''db'' ''tbl'' ''ALTER a'')) ''g1'' ''t1'' ''db'' ''tbl'' ''ALTER a''))"
proof -
  let ?s = "(NewOnlineDDLStorage ''mysql-01'')\<lparr>faults := [Some (Cause ''connection reset'')]\<rparr>"
  let ?s1 = "snd (Save example_env ?s ''g1'' ''t1'' ''db'' ''tbl'' ''ALTER a'')"
  let ?s2 = "snd (Save example_env ?s1 ''g1'' ''t1'' ''db'' ''tbl'' ''ALTER a'')"
  have m0: "mirrored example_env ?s" by (simp add: mirrored_def lookup_def NewOnlineDDLStorage_def)
  have e1: "fst (Save example_env ?s ''g1'' ''t1'' ''db'' ''tbl'' ''ALTER a'')
       = Some (Scoped ScopeDownstream (Scoped ScopeDownstream (Cause ''connection reset'')))"
    by (simp add: example_env_def run_defs)
  have s2: "fst (Save example_env ?s1 ''g1'' ''t1'' ''db'' ''tbl'' ''ALTER a'') = None"
    "lookup ?s2 ''g1'' ''t1'' = Some 0" "rows ?s2 (id_src ?s2, ''g1'', ''t1'') = None"
    by (simp_all add: example_env_def run_defs)
  have "\<not> mirrored example_env ?s2"
  proof
    assume "mirrored example_env ?s2"
    from mirroredD(2)[OF this s2(2)] s2(3) show False by simp
  qed
  with m0 e1 s2(1) show ?thesis by simp
qed

text \<open>
  Claim C2, amended. The map in memory and the durable rows of the source agree when
  every entry in memory has a row with its serialized Record and every other key of the
  source has no row (\<open>mirrored\<close>). If they agree, in a store that keeps the heap discipline
  of the operations (\<open>heap_ok\<close>), they agree after every \<open>Save\<close>, \<open>Delete\<close> and \<open>Clear\<close> that
  returns success. \<open>CheckAndUpdate\<close> is left out: see C1.
\<close>

theorem successful_Save_Delete_Clear_keep_mirror:
  assumes "mirrored E s" and "heap_ok s"
  shows "(fst (Save E s g t rs rt ddl) = None \<longrightarrow> mirrored E (snd (Save E s g t rs rt ddl)))
       \<and> (fst (Delete s g t) = None \<longrightarrow> mirrored E (snd (Delete s g t)))
       \<and> (fst (Clear s) = None \<longrightarrow> mirrored E (snd (Clear s)))"
  using Save_mirrored[OF assms] Delete_mirrored[OF assms(1)] Clear_mirrored by blast

theorem successful_Save_Delete_Clear_keep_mirror_witness:
  "mirrored example_env example_store \<and> heap_ok example_store
   \<and> fst (Save example_env example_store ''g1'' ''t2'' ''db'' ''tbl2'' ''ALTER b'') = None
   \<and> mirrored example_env (snd (Save example_env example_store ''g1'' ''t2'' ''db'' ''tbl2'' ''ALTER b''))
   \<and> fst (Delete example_store ''g1'' ''t1'') = None
   \<and> mirrored example_env (snd (Delete example_store ''g1'' ''t1''))
   \<and> fst (Clear example_store) = None
   \<and> mirrored example_env (snd (Clear example_store))"
proof -
  have 1: "fst (Save example_env example_store ''g1'' ''t2'' ''db'' ''tbl2'' ''ALTER b'') = None"
    by (simp add: example_store_eq example_env_def run_defs)
  have 2: "fst (Delete example_store ''g1'' ''t1'') = None"
    by (simp add: example_store_eq run_defs)
  have 3: "fst (Clear example_store) = None"
    by (simp add: example_store_eq run_defs)
  show ?thesis
    using successful_Save_Delete_Clear_keep_mirror[OF mirrored_example_store heap_ok_example_store,
        where g = "''g1''" and t = "''t2''" and rs = "''db''" and rt = "''tbl2''" and ddl = "''ALTER b''"]
      successful_Save_Delete_Clear_keep_mirror[OF mirrored_example_store heap_ok_example_store,
        where g = "''g1''" and t = "''t1''" and rs = "''db''" and rt = "''tbl2''" and ddl = "''ALTER b''"]
      mirrored_example_store heap_ok_example_store 1 2 3
    by simp
qed

text \<open>
  Claim C3. For a key whose slice is within its array (\<open>wf_key\<close>), \<open>Save\<close> returns
  success and leaves everything but the lock events as it was (no append, no statement
  sent, no error) exactly when the key has a Record whose last DDL is \<open>ddl\<close>; in every
  other case \<open>ddl\<close> is appended. Saving d1, d2, d1 with \<open>d1 \<noteq> d2\<close> appends
  [d1, d2, d1] (on a new key the DDLs are exactly that), and saving d1 twice appends it
  once.
\<close>

theorem Save_adjacent_duplicates:
  assumes wf: "wf_key s g t"
  shows "(Save E s g t rs rt ddl = (None, emit Unlock (emit Lock s)) \<longleftrightarrow> is_dup s g t ddl)
       \<and> (\<not> is_dup s g t ddl \<longrightarrow> DDLs_at (snd (Save E s g t rs rt ddl)) g t = DDLs_at s g t @ [ddl])
       \<and> (\<not> is_dup s g t d1 \<and> d1 \<noteq> d2 \<longrightarrow>
            DDLs_at (snd (Save E (snd (Save E (snd (Save E s g t rs rt d1)) g t rs rt d2)) g t rs rt d1)) g t
              = DDLs_at s g t @ [d1, d2, d1])
       \<and> (\<not> is_dup s g t d1 \<longrightarrow>
            DDLs_at (snd (Save E (snd (Save E s g t rs rt d1)) g t rs rt d1)) g t = DDLs_at s g t @ [d1])"
proof (intro conjI impI)
  show "Save E s g t rs rt ddl = (None, emit Unlock (emit Lock s)) \<longleftrightarrow> is_dup s g t ddl"
  proof
    assume eq: "Save E s g t rs rt ddl = (None, emit Unlock (emit Lock s))"
    show "is_dup s g t ddl"
    proof (rule ccontr)
      assume "\<not> is_dup s g t ddl"
      with DDLs_at_Save[OF wf, of E rs rt ddl]
      have "DDLs_at (snd (Save E s g t rs rt ddl)) g t = DDLs_at s g t @ [ddl]" by simp
      with eq show False by (simp add: DDLs_at_def)
    qed
  next
    assume "is_dup s g t ddl"
    then show "Save E s g t rs rt ddl = (None, emit Unlock (emit Lock s))" by (rule Save_dup[OF wf])
  qed
next
  assume "\<not> is_dup s g t ddl"
  then show "DDLs_at (snd (Save E s g t rs rt ddl)) g t = DDLs_at s g t @ [ddl]"
    by (simp add: DDLs_at_Save[OF wf])
next
  assume a: "\<not> is_dup s g t d1 \<and> d1 \<noteq> d2"
  let ?s1 = "snd (Save E s g t rs rt d1)"
  let ?s2 = "snd (Save E ?s1 g t rs rt d2)"
  have wf1: "wf_key ?s1 g t" by (rule Save_step(1)[OF wf])
  have wf2: "wf_key ?s2 g t" by (rule Save_step(1)[OF wf1])
  have h1: "DDLs_at ?s1 g t = DDLs_at s g t @ [d1]" using a by (simp add: DDLs_at_Save[OF wf])
  have h2: "DDLs_at ?s2 g t = DDLs_at s g t @ [d1, d2]"
    using a h1 by (simp add: DDLs_at_Save[OF wf1] is_dup_DDLs_at)
  from a have ne: "d2 \<noteq> d1" by auto
  show "DDLs_at (snd (Save E ?s2 g t rs rt d1)) g t = DDLs_at s g t @ [d1, d2, d1]"
    using ne h2 by (simp add: DDLs_at_Save[OF wf2] is_dup_DDLs_at)
next
  assume a: "\<not> is_dup s g t d1"
  let ?s1 = "snd (Save E s g t rs rt d1)"
  have wf1: "wf_key ?s1 g t" by (rule Save_step(1)[OF wf])
  have h1: "DDLs_at ?s1 g t = DDLs_at s g t @ [d1]" using a by (simp add: DDLs_at_Save[OF wf])
  show "DDLs_at (snd (Save E ?s1 g t rs rt d1)) g t = DDLs_at s g t @ [d1]"
    using h1 by (simp add: DDLs_at_Save[OF wf1] is_dup_DDLs_at)
qed

theorem Save_adjacent_duplicates_witness:
  "wf_key (NewOnlineDDLStorage ''mysql-01'') ''g1'' ''t1''
   \<and> \<not> is_dup (NewOnlineDDLStorage ''mysql-01'') ''g1'' ''t1'' ''ALTER a''
   \<and> DDLs_at (snd (Save example_env (NewOnlineDDLStorage ''mysql-01'') ''g1'' ''t1'' ''db'' ''tbl'' ''ALTER a'')) ''g1'' ''t1''
       = [''ALTER a'']
   \<and> DDLs_at (snd (Save example_env (snd (Save example_env (snd (Save example_env
          (NewOnlineDDLStorage ''mysql-01'') ''g1'' ''t1'' ''db'' ''tbl'' ''ALTER a''))
          ''g1'' ''t1'' ''db'' ''tbl'' ''ALTER b'')) ''g1'' ''t1'' ''db'' ''tbl'' ''ALTER a'')) ''g1'' ''t1''
       = [''ALTER a'', ''ALTER b'', ''ALTER a'']
   \<and> DDLs_at (snd (Save example_env (snd (Save example_env
          (NewOnlineDDLStorage ''mysql-01'') ''g1'' ''t1'' ''db'' ''tbl'' ''ALTER a''))
          ''g1'' ''t1'' ''db'' ''tbl'' ''ALTER a'')) ''g1'' ''t1''
       = [''ALTER a'']
   \<and> wf_key example_store ''g1'' ''t1''
   \<and> is_dup example_store ''g1'' ''t1'' ''ALTER TABLE t1 ADD c INT''
   \<and> Save example_env example_store ''g1'' ''t1'' ''db'' ''tbl'' ''ALTER TABLE t1 ADD c INT''
       = (None, emit Unlock (emit Lock example_store))"
proof -
  have wf0: "wf_key (NewOnlineDDLStorage ''mysql-01'') ''g1'' ''t1''"
    by (simp add: wf_key_def lookup_def NewOnlineDDLStorage_def)
  have nd0: "\<not> is_dup (NewOnlineDDLStorage ''mysql-01'') ''g1'' ''t1'' ''ALTER a''"
    by (simp add: is_dup_def record_at_def lookup_def NewOnlineDDLStorage_def)
  have d0: "DDLs_at (NewOnlineDDLStorage ''mysql-01'') ''g1'' ''t1'' = []"
    by (simp add: DDLs_at_def record_at_def lookup_def NewOnlineDDLStorage_def)
  have wf1: "wf_key example_store ''g1'' ''t1''"
    by (simp add: wf_key_def lookup_def example_store_eq wf_slice_def)
  have dup1: "is_dup example_store ''g1'' ''t1'' ''ALTER TABLE t1 ADD c INT''"
    by (simp add: is_dup_def record_at_def lookup_def example_store_eq contents_of_def elems_def)
  show ?thesis
    using Save_adjacent_duplicates[OF wf0, where E = example_env and rs = "''db''" and rt = "''tbl''"
        and ddl = "''ALTER a''" and ?d1.0 = "''ALTER a''" and ?d2.0 = "''ALTER b''"]
      Save_adjacent_duplicates[OF wf1, where E = example_env and rs = "''db''" and rt = "''tbl''"
        and ddl = "''ALTER TABLE t1 ADD c INT''" and ?d1.0 = "''x''" and ?d2.0 = "''x''"]
      wf0 nd0 d0 wf1 dup1
    by simp
qed

text \<open>
  Claim C4. In the sequence of events of a \<open>CheckAndUpdate\<close>, whatever it returns, every
  \<open>DELETE\<close> of a row (g, t) comes directly after a \<open>REPLACE\<close> that succeeded, that wrote
  the key the maps give to (g, t), and whose payload is the serialized Record that the
  store held under (g, t), with its \<open>Table\<close> renamed.
\<close>

theorem CheckAndUpdate_upserts_before_it_deletes:
  "upsert_before_delete (target_schema sm) (target_table tm)
     (\<lambda>g t. migrated_payload E rn s g t (target_table tm g t)) None
     (new_events s (snd (CheckAndUpdate E s sm tm rn)))"
proof -
  from CheckAndUpdate_events[of E s sm tm rn] obtain evs where
    ev: "events (snd (CheckAndUpdate E s sm tm rn)) = events s @ [Lock] @ evs @ [Unlock]"
    and u: "upsert_before_delete (target_schema sm) (target_table tm)
            (\<lambda>g t. migrated_payload E rn s g t (target_table tm g t)) None evs"
    by blast
  have "upsert_before_delete (target_schema sm) (target_table tm)
            (\<lambda>g t. migrated_payload E rn s g t (target_table tm g t)) None ([Lock] @ evs @ [Unlock])"
    using u by (intro ubd_append_gen) simp_all
  with ev show ?thesis by (simp add: new_events_def)
qed

theorem CheckAndUpdate_upserts_before_it_deletes_witness:
  "new_events example_store (snd (CheckAndUpdate example_env example_store [''g1'' \<mapsto> ''g2''] Map.empty id))
     = [Lock, Exec (Replace ''mysql-01'' ''g2'' ''t1'' ''db.t1:ALTER TABLE t1 ADD c INT'') None,
        Exec (DeleteRow ''mysql-01'' ''g1'' ''t1'') None, Unlock]
   \<and> upsert_before_delete (target_schema [''g1'' \<mapsto> ''g2'']) (target_table Map.empty)
       (\<lambda>g t. migrated_payload example_env id example_store g t (target_table Map.empty g t)) None
       (new_events example_store (snd (CheckAndUpdate example_env example_store [''g1'' \<mapsto> ''g2''] Map.empty id)))"
proof -
  have 1: "new_events example_store (snd (CheckAndUpdate example_env example_store [''g1'' \<mapsto> ''g2''] Map.empty id))
     = [Lock, Exec (Replace ''mysql-01'' ''g2'' ''t1'' ''db.t1:ALTER TABLE t1 ADD c INT'') None,
        Exec (DeleteRow ''mysql-01'' ''g1'' ''t1'') None, Unlock]"
    by (simp add: reconciled_eq new_events_def) (simp add: example_store_eq)
  show ?thesis
    using CheckAndUpdate_upserts_before_it_deletes[of "[''g1'' \<mapsto> ''g2'']" Map.empty example_env id example_store]
      1 by (simp add: target_table_def)
qed

text \<open>
  Claim C5, as stated, fails. \<open>Get\<close> on the store after one \<open>Save\<close> returns a new struct at
  address 1; the caller's assignment \<open>clone.DDLs[0] = "DROP TABLE t1"\<close> goes to the array
  that the stored Record's slice points to, and the stored DDLs become
  ["DROP TABLE t1"].
\<close>

theorem Get_copy_shares_DDLs_array:
  "fst (Get example_store ''g1'' ''t1'') = Some 1
   \<and> record_at (snd (Get example_store ''g1'' ''t1'')) ''g1'' ''t1''
       = Some (''db'', ''tbl'', [''ALTER TABLE t1 ADD c INT''])
   \<and> map_option (\<lambda>s. record_at s ''g1'' ''t1'')
        (assign_elem (snd (Get example_store ''g1'' ''t1''))
           (DDLs (infos (snd (Get example_store ''g1'' ''t1'')) 1)) 0 ''DROP TABLE t1'')
       = Some (Some (''db'', ''tbl'', [''DROP TABLE t1'']))"
  by (simp add: example_store_eq Get_def with_RLock_def emit_def new_info_def assign_elem_def
      record_at_def lookup_def contents_of_def elems_def)

text \<open>
  Claim C5, amended. For a key that is present, in a store that keeps the heap
  discipline of the operations (\<open>heap_ok\<close>), \<open>Get\<close> returns the address of a new struct,
  which no key of the map holds, with the fields of the stored Record, the slice header
  of \<open>DDLs\<close> included; \<open>Get\<close> changes no Record of the store, and no assignment to the
  returned struct does. An assignment to element \<open>i\<close> of the returned \<open>DDLs\<close> replaces
  element \<open>i\<close> of the stored DDLs.
\<close>

theorem Get_returns_shallow_copy:
  assumes "lookup s g t = Some p" and "heap_ok s"
  shows "fst (Get s g t) = Some (next_info s)
       \<and> (\<forall>g' t'. lookup s g' t' \<noteq> Some (next_info s))
       \<and> infos (snd (Get s g t)) (next_info s) = infos s p
       \<and> (\<forall>g' t'. lookup (snd (Get s g t)) g' t' = lookup s g' t'
                 \<and> record_at (snd (Get s g t)) g' t' = record_at s g' t')
       \<and> (\<forall>v g' t'. record_at (assign_struct (snd (Get s g t)) (next_info s) v) g' t' = record_at s g' t')
       \<and> (\<forall>i v. i < len (DDLs (infos s p)) \<longrightarrow>
             map_option (\<lambda>s'. DDLs_at s' g t)
               (assign_elem (snd (Get s g t)) (DDLs (infos (snd (Get s g t)) (next_info s))) i v)
             = Some ((DDLs_at s g t)[i := v]))"
proof -
  note G = Get_present[OF assms(1)]
  have fresh: "\<And>g' t'. lookup s g' t' \<noteq> Some (next_info s)"
    using heap_okD(1)[OF assms(2)] by fastforce
  have keep: "\<And>g' t' q. lookup s g' t' = Some q \<Longrightarrow> infos (snd (Get s g t)) q = infos s q"
    using fresh G(2) by fastforce
  have 1: "\<And>g' t'. record_at (snd (Get s g t)) g' t' = record_at s g' t'"
    by (rule record_at_frame_lookup) (use G keep in auto)
  have 2: "\<And>v g' t'. record_at (assign_struct (snd (Get s g t)) (next_info s) v) g' t' = record_at s g' t'"
  proof (rule record_at_frame_lookup)
    fix v g' t' q assume "lookup s g' t' = Some q"
    with fresh[of g' t'] keep[of g' t' q]
    show "infos (assign_struct (snd (Get s g t)) (next_info s) v) q = infos s q"
      by (auto simp: assign_struct_def)
  qed (use G in \<open>auto simp: assign_struct_def\<close>)
  have 3: "\<And>i v. i < len (DDLs (infos s p)) \<Longrightarrow>
             map_option (\<lambda>s'. DDLs_at s' g t)
               (assign_elem (snd (Get s g t)) (DDLs (infos (snd (Get s g t)) (next_info s))) i v)
             = Some ((DDLs_at s g t)[i := v])"
  proof -
    fix i v assume i: "i < len (DDLs (infos s p))"
    have lk: "lookup (snd (Get s g t)) g t = Some p" using G(3) assms(1) by (simp add: lookup_def)
    have ip: "infos (snd (Get s g t)) p = infos s p" by (rule keep[OF assms(1)])
    show "map_option (\<lambda>s'. DDLs_at s' g t)
               (assign_elem (snd (Get s g t)) (DDLs (infos (snd (Get s g t)) (next_info s))) i v)
             = Some ((DDLs_at s g t)[i := v])"
      using i G lk ip assms(1)
      by (simp add: assign_elem_def DDLs_at_def record_at_def lookup_def contents_of_def elems_def
          take_update_swap)
  qed
  show ?thesis using G fresh 1 2 3 by (simp add: lookup_def)
qed

theorem Get_returns_shallow_copy_witness:
  "lookup example_store ''g1'' ''t1'' = Some 0 \<and> heap_ok example_store
   \<and> fst (Get example_store ''g1'' ''t1'') = Some 1
   \<and> infos (snd (Get example_store ''g1'' ''t1'')) 1
       = \<lparr>Schema = ''db'', Table = ''tbl'', DDLs = \<lparr>ptr = 0, len = 1, cap = 1\<rparr>\<rparr>
   \<and> record_at (assign_struct (snd (Get example_store ''g1'' ''t1'')) 1
                  \<lparr>Schema = ''x'', Table = ''y'', DDLs = nil_slice\<rparr>) ''g1'' ''t1''
       = Some (''db'', ''tbl'', [''ALTER TABLE t1 ADD c INT''])
   \<and> (0::nat) < len (DDLs (infos example_store 0))
   \<and> map_option (\<lambda>s'. DDLs_at s' ''g1'' ''t1'')
        (assign_elem (snd (Get example_store ''g1'' ''t1''))
           (DDLs (infos (snd (Get example_store ''g1'' ''t1'')) 1)) 0 ''DROP TABLE t1'')
       = Some [''DROP TABLE t1'']"
proof -
  have l: "lookup example_store ''g1'' ''t1'' = Some 0" by (simp add: lookup_def example_store_eq)
  have n: "next_info example_store = 1" by (simp add: example_store_eq)
  have i: "infos example_store 0 = \<lparr>Schema = ''db'', Table = ''tbl'', DDLs = \<lparr>ptr = 0, len = 1, cap = 1\<rparr>\<rparr>"
    by (simp add: example_store_eq)
  have r: "record_at example_store ''g1'' ''t1'' = Some (''db'', ''tbl'', [''ALTER TABLE t1 ADD c INT''])"
    by (simp add: record_at_def lookup_def example_store_eq contents_of_def elems_def)
  have d: "DDLs_at example_store ''g1'' ''t1'' = [''ALTER TABLE t1 ADD c INT'']"
    by (simp add: DDLs_at_def r)
  note T = Get_returns_shallow_copy[OF l heap_ok_example_store]
  from T have "\<forall>i v. i < len (DDLs (infos example_store 0)) \<longrightarrow>
             map_option (\<lambda>s'. DDLs_at s' ''g1'' ''t1'')
               (assign_elem (snd (Get example_store ''g1'' ''t1''))
                  (DDLs (infos (snd (Get example_store ''g1'' ''t1'')) (next_info example_store))) i v)
             = Some ((DDLs_at example_store ''g1'' ''t1'')[i := v])"
    by blast
  then have "0 < len (DDLs (infos example_store 0)) \<longrightarrow>
             map_option (\<lambda>s'. DDLs_at s' ''g1'' ''t1'')
               (assign_elem (snd (Get example_store ''g1'' ''t1''))
                  (DDLs (infos (snd (Get example_store ''g1'' ''t1'')) (next_info example_store))) 0 ''DROP TABLE t1'')
             = Some ((DDLs_at example_store ''g1'' ''t1'')[0 := ''DROP TABLE t1''])"
    by blast
  then have w: "map_option (\<lambda>s'. DDLs_at s' ''g1'' ''t1'')
        (assign_elem (snd (Get example_store ''g1'' ''t1''))
           (DDLs (infos (snd (Get example_store ''g1'' ''t1'')) 1)) 0 ''DROP TABLE t1'')
       = Some [''DROP TABLE t1'']"
    by (simp add: i n d)
  from T have "fst (Get example_store ''g1'' ''t1'') = Some 1"
    and "infos (snd (Get example_store ''g1'' ''t1'')) 1
       = \<lparr>Schema = ''db'', Table = ''tbl'', DDLs = \<lparr>ptr = 0, len = 1, cap = 1\<rparr>\<rparr>"
    and "record_at (assign_struct (snd (Get example_store ''g1'' ''t1'')) 1
                  \<lparr>Schema = ''x'', Table = ''y'', DDLs = nil_slice\<rparr>) ''g1'' ''t1''
       = Some (''db'', ''tbl'', [''ALTER TABLE t1 ADD c INT''])"
    by (simp_all add: n i r)
  with w l heap_ok_example_store i show ?thesis by simp
qed

text \<open>
  Claim C6. For a key with no entry (schema or table missing), \<open>Get\<close> returns nil and
  changes nothing but the lock events. For a key whose schema is missing, \<open>Delete\<close>
  returns success and changes nothing but the lock events: no statement is sent.
\<close>

theorem absent_key_is_no_error:
  "(lookup s g t = None \<longrightarrow> Get s g t = (None, emit RUnlock (emit RLock s)))
   \<and> (map_of (ddls s) g = None \<longrightarrow> Delete s g t = (None, emit Unlock (emit Lock s)))"
  by (auto simp: Get_def with_RLock_def Delete_def with_Lock_def delete_def lookup_def split: option.splits)

theorem absent_key_is_no_error_witness:
  "lookup (NewOnlineDDLStorage ''mysql-01'') ''g1'' ''t1'' = None
   \<and> Get (NewOnlineDDLStorage ''mysql-01'') ''g1'' ''t1''
       = (None, emit RUnlock (emit RLock (NewOnlineDDLStorage ''mysql-01'')))
   \<and> map_of (ddls (NewOnlineDDLStorage ''mysql-01'')) ''g1'' = None
   \<and> Delete (NewOnlineDDLStorage ''mysql-01'') ''g1'' ''t1''
       = (None, emit Unlock (emit Lock (NewOnlineDDLStorage ''mysql-01'')))
   \<and> lookup example_store ''g1'' ''t9'' = None
   \<and> fst (Get example_store ''g1'' ''t9'') = None"
proof -
  have 1: "lookup (NewOnlineDDLStorage ''mysql-01'') ''g1'' ''t1'' = None"
    by (simp add: lookup_def NewOnlineDDLStorage_def)
  have 2: "map_of (ddls (NewOnlineDDLStorage ''mysql-01'')) ''g1'' = None"
    by (simp add: NewOnlineDDLStorage_def)
  have 3: "lookup example_store ''g1'' ''t9'' = None" by (simp add: lookup_def example_store_eq)
  show ?thesis
    using absent_key_is_no_error[of "NewOnlineDDLStorage ''mysql-01''" "''g1''" "''t1''"]
      absent_key_is_no_error[of example_store "''g1''" "''t9''"] 1 2 3
    by simp
qed

text \<open>
  Claim C7. When the query succeeds and the rows before it were scanned and decoded,
  a row whose payload fails to decode makes \<open>Load\<close> return
  \<open>ErrSyncerUnitOnlineDDLInvalidMeta\<close>, which has no downstream scope. A \<open>Load\<close> that
  succeeds has scanned and decoded every row of the cursor. Every other error of \<open>Load\<close>
  has the downstream scope.
\<close>

theorem Load_reports_corrupt_payload:
  "(list_all (decodes E) pre \<and> fst (json_Unmarshal E p) = Some e \<longrightarrow>
      fst (Load E s (Cursor (pre @ Scanned g t p # post) rows_err)) = Some (Delegate_InvalidMeta e)
      \<and> is_invalid_meta (Delegate_InvalidMeta e) \<and> \<not> is_downstream (Delegate_InvalidMeta e))
   \<and> (fst (Load E s qr) = None \<longrightarrow> (\<exists>scans. qr = Cursor scans None \<and> list_all (decodes E) scans))
   \<and> (\<forall>err. fst (Load E s qr) = Some err \<and> \<not> is_invalid_meta err \<longrightarrow> is_downstream err)"
proof (intro conjI impI allI)
  assume a: "list_all (decodes E) pre \<and> fst (json_Unmarshal E p) = Some e"
  let ?s = "emit (Query (id_src s) None) (emit Lock s)"
  from a Load_rows_good[of E pre ?s "Scanned g t p # post"]
  obtain s' where "Load_rows E ?s (pre @ Scanned g t p # post) = Load_rows E s' (Scanned g t p # post)"
    by auto
  with a Load_rows_bad[of E p e s' g t post]
  have "fst (Load_rows E ?s (pre @ Scanned g t p # post)) = Some (Delegate_InvalidMeta e)" by simp
  then show "fst (Load E s (Cursor (pre @ Scanned g t p # post) rows_err)) = Some (Delegate_InvalidMeta e)"
    by (simp add: Load_unfold_Cursor)
  show "is_invalid_meta (Delegate_InvalidMeta e)" by (simp add: Delegate_InvalidMeta_def)
  show "\<not> is_downstream (Delegate_InvalidMeta e)" by (simp add: Delegate_InvalidMeta_def)
next
  assume ok: "fst (Load E s qr) = None"
  show "\<exists>scans. qr = Cursor scans None \<and> list_all (decodes E) scans"
  proof (cases qr)
    case (QueryFailed err)
    with ok show ?thesis by (simp add: Load_def with_Lock_def WithScope_def)
  next
    case (Cursor scans rows_err)
    with ok have "fst (Load_rows E (emit (Query (id_src s) None) (emit Lock s)) scans) = None"
      and "rows_err = None"
      by (auto simp: Load_unfold_Cursor WithScope_def DBErrorAdapt_def split: option.splits)
    with Cursor Load_rows_success show ?thesis by auto
  qed
next
  fix err assume a: "fst (Load E s qr) = Some err \<and> \<not> is_invalid_meta err"
  show "is_downstream err"
  proof (cases qr)
    case (QueryFailed e')
    with a show ?thesis by (auto simp: Load_def with_Lock_def WithScope_def)
  next
    case (Cursor scans rows_err)
    show ?thesis
    proof (cases "fst (Load_rows E (emit (Query (id_src s) None) (emit Lock s)) scans)")
      case None
      with a Cursor show ?thesis
        by (auto simp: Load_unfold_Cursor WithScope_def DBErrorAdapt_def split: option.splits)
    next
      case (Some e')
      with a Cursor have "e' = err" by (simp add: Load_unfold_Cursor)
      with Some Load_rows_error_kind a show ?thesis by blast
    qed
  qed
qed

theorem Load_reports_corrupt_payload_witness:
  "list_all (decodes example_env) [Scanned ''g1'' ''t1'' ''ok'']
   \<and> fst (json_Unmarshal example_env ''{'') = Some (Cause ''unexpected end of JSON input'')
   \<and> fst (Load example_env (NewOnlineDDLStorage ''mysql-01'')
            (Cursor ([Scanned ''g1'' ''t1'' ''ok''] @ Scanned ''g1'' ''t2'' ''{'' # [Scanned ''g1'' ''t3'' ''ok'']) None))
       = Some (ErrSyncerUnitOnlineDDLInvalidMeta (Cause ''unexpected end of JSON input''))
   \<and> fst (Load example_env (NewOnlineDDLStorage ''mysql-01'') (Cursor [Scanned ''g1'' ''t1'' ''ok''] None)) = None
   \<and> fst (Load example_env (NewOnlineDDLStorage ''mysql-01'') (QueryFailed (Cause ''timeout'')))
       = Some (Scoped ScopeDownstream (Cause ''timeout''))
   \<and> \<not> is_invalid_meta (Scoped ScopeDownstream (Cause ''timeout''))
   \<and> is_downstream (Scoped ScopeDownstream (Cause ''timeout''))"
proof -
  have 1: "list_all (decodes example_env) [Scanned ''g1'' ''t1'' ''ok'']" by (simp add: example_env_def)
  have 2: "fst (json_Unmarshal example_env ''{'') = Some (Cause ''unexpected end of JSON input'')"
    by (simp add: example_env_def)
  have 3: "fst (Load example_env (NewOnlineDDLStorage ''mysql-01'') (Cursor [Scanned ''g1'' ''t1'' ''ok''] None)) = None"
  proof -
    have ok: "fst (json_Unmarshal example_env ''ok'') = None" by (simp add: example_env_def)
    show ?thesis
      by (simp add: Load_unfold_Cursor Load_rows_decoded[OF ok] WithScope_def
          DBErrorAdapt_def del: Load_rows.simps(3))
  qed
  have 4: "fst (Load example_env (NewOnlineDDLStorage ''mysql-01'') (QueryFailed (Cause ''timeout'')))
       = Some (Scoped ScopeDownstream (Cause ''timeout''))"
    by (simp add: Load_def with_Lock_def WithScope_def)
  show ?thesis
    using Load_reports_corrupt_payload[of example_env "[Scanned ''g1'' ''t1'' ''ok'']" "''{''"
        "Cause ''unexpected end of JSON input''" "NewOnlineDDLStorage ''mysql-01''" "''g1''" "''t2''"
        "[Scanned ''g1'' ''t3'' ''ok'']" None "QueryFailed (Cause ''timeout'')"]
      Load_reports_corrupt_payload[of example_env "[]" "''{''"
        "Cause ''unexpected end of JSON input''" "NewOnlineDDLStorage ''mysql-01''" "''g1''" "''t2''"
        "[]" None "Cursor [Scanned ''g1'' ''t1'' ''ok''] None"]
      1 2 3 4
    by (simp add: Delegate_InvalidMeta_def)
qed

text \<open>
  Claim C8, as stated, fails: \<open>ResetConn\<close> calls the connection and never touches the
  lock.
\<close>

theorem ResetConn_takes_no_lock:
  "\<not> holds_lock Lock Unlock (NewOnlineDDLStorage ''mysql-replica-01'')
       (snd (ResetConn (NewOnlineDDLStorage ''mysql-replica-01'') None))"
  by (simp add: holds_lock_def new_events_def ResetConn_def NewOnlineDDLStorage_def emit_def)

text \<open>
  Claim C8, amended. \<open>Get\<close> takes the read lock first and releases it last; \<open>Load\<close>,
  \<open>Save\<close>, \<open>Delete\<close>, \<open>Clear\<close>, \<open>Close\<close> and \<open>CheckAndUpdate\<close> take the write lock first
  and release it last, on every path; nothing in between is a lock operation. The only
  event of \<open>ResetConn\<close> is the call of the connection.
\<close>

theorem operations_hold_the_lock:
  "holds_lock RLock RUnlock s (snd (Get s g t))
   \<and> holds_lock Lock Unlock s (snd (Load E s qr))
   \<and> holds_lock Lock Unlock s (snd (Save E s g t rs rt ddl))
   \<and> holds_lock Lock Unlock s (snd (Delete s g t))
   \<and> holds_lock Lock Unlock s (snd (Clear s))
   \<and> holds_lock Lock Unlock s (snd (Close s))
   \<and> holds_lock Lock Unlock s (snd (CheckAndUpdate E s sm tm rn))
   \<and> new_events s (snd (ResetConn s res)) = [ResetConnCall res]"
proof (intro conjI)
  show "holds_lock RLock RUnlock s (snd (Get s g t))"
    unfolding Get_def
    by (rule with_RLock_holds) (auto simp: quiet_def new_info_def split: option.splits)
  show "holds_lock Lock Unlock s (snd (Load E s qr))"
    unfolding Load_def
  proof (rule with_Lock_holds)
    fix s1
    show "quiet s1 (snd (case qr of
              QueryFailed err \<Rightarrow> (WithScope (Some err) ScopeDownstream, emit (Query (id_src s1) (Some err)) s1)
            | Cursor scans rows_err \<Rightarrow>
                (case Load_rows E (emit (Query (id_src s1) None) s1) scans of
                   (Some err, s') \<Rightarrow> (Some err, s')
                 | (None, s') \<Rightarrow> (WithScope (DBErrorAdapt rows_err) ScopeDownstream, s'))))"
    proof (cases qr)
      case (QueryFailed e)
      then show ?thesis by (simp add: quiet_def)
    next
      case (Cursor scans rows_err)
      obtain u s' where l: "Load_rows E (emit (Query (id_src s1) None) s1) scans = (u, s')"
        by (cases "Load_rows E (emit (Query (id_src s1) None) s1) scans")
      with Load_rows_events[of E "emit (Query (id_src s1) None) s1" scans]
      have "events s' = events s1 @ [Query (id_src s1) None]" by simp
      with Cursor l show ?thesis by (cases u) (simp_all add: quiet_def)
    qed
  qed
  show "holds_lock Lock Unlock s (snd (Save E s g t rs rt ddl))"
    unfolding Save_def by (rule with_Lock_holds) (rule Save_locked_quiet)
  show "holds_lock Lock Unlock s (snd (Delete s g t))"
    unfolding Delete_def by (rule with_Lock_holds) (rule quiet_delete)
  show "holds_lock Lock Unlock s (snd (Clear s))"
    unfolding Clear_def
  proof (rule with_Lock_holds)
    fix s1
    obtain r s2 where ex: "ExecuteSQL s1 (DeleteAll (id_src s1)) = (r, s2)"
      by (cases "ExecuteSQL s1 (DeleteAll (id_src s1))")
    from ExecuteSQL_frame(7)[OF ex] ex
    show "quiet s1 (snd (case ExecuteSQL s1 (DeleteAll (id_src s1)) of
            (Some err, s') \<Rightarrow> (WithScope (Some err) ScopeDownstream, s')
          | (None, s') \<Rightarrow> (None, s'\<lparr>ddls := []\<rparr>)))"
      by (cases r) (simp_all add: quiet_def)
  qed
  show "holds_lock Lock Unlock s (snd (Close s))"
    unfolding Close_def by (rule with_Lock_holds) (simp add: quiet_def)
  show "holds_lock Lock Unlock s (snd (CheckAndUpdate E s sm tm rn))"
    using CheckAndUpdate_events[of E s sm tm rn] by (auto intro: holds_lockI)
  show "new_events s (snd (ResetConn s res)) = [ResetConnCall res]"
    by (simp add: ResetConn_def new_events_def)
qed

text \<open>
  Claim C9. When the connection fails the next statement and \<open>ddl\<close> is not a duplicate,
  \<open>Save\<close> returns an error, \<open>ddl\<close> is appended to the Record in memory all the same, and
  no row changes. The same \<open>Save\<close> again returns success and changes nothing but the
  lock events: no statement is sent, so the row never gets \<open>ddl\<close>.
\<close>

theorem Save_failed_write_then_retry:
  assumes wf: "wf_key s g t" and nd: "\<not> is_dup s g t ddl" and f: "faults s = Some e # fs"
  shows "fst (Save E s g t rs rt ddl) \<noteq> None
       \<and> DDLs_at (snd (Save E s g t rs rt ddl)) g t = DDLs_at s g t @ [ddl]
       \<and> rows (snd (Save E s g t rs rt ddl)) = rows s
       \<and> Save E (snd (Save E s g t rs rt ddl)) g t rs rt ddl =
           (None, emit Unlock (emit Lock (snd (Save E s g t rs rt ddl))))"
proof -
  let ?s1 = "snd (Save E s g t rs rt ddl)"
  have err: "fst (Save E s g t rs rt ddl) \<noteq> None" by (rule Save_fails[OF wf nd f])
  have wf1: "wf_key ?s1 g t" by (rule Save_step(1)[OF wf])
  have dup1: "is_dup ?s1 g t ddl" by (rule Save_step(4)[OF wf err])
  have "DDLs_at ?s1 g t = DDLs_at s g t @ [ddl]" using nd by (simp add: DDLs_at_Save[OF wf])
  moreover have "rows ?s1 = rows s" by (rule Save_step(3)[OF wf err])
  moreover have "Save E ?s1 g t rs rt ddl = (None, emit Unlock (emit Lock ?s1))"
    by (rule Save_dup[OF wf1 dup1])
  ultimately show ?thesis using err by simp
qed

theorem Save_failed_write_then_retry_witness:
  "wf_key ((NewOnlineDDLStorage ''mysql-01'')\<lparr>faults := [Some (Cause ''connection reset'')]\<rparr>) ''g1'' ''t1''
   \<and> \<not> is_dup ((NewOnlineDDLStorage ''mysql-01'')\<lparr>faults := [Some (Cause ''connection reset'')]\<rparr>) ''g1'' ''t1'' ''ALTER a''
   \<and> fst (Save example_env ((NewOnlineDDLStorage ''mysql-01'')\<lparr>faults := [Some (Cause ''connection reset'')]\<rparr>)
             ''g1'' ''t1'' ''db'' ''tbl'' ''ALTER a'')
       = Some (Scoped ScopeDownstream (Scoped ScopeDownstream (Cause ''connection reset'')))
   \<and> DDLs_at (snd (Save example_env ((NewOnlineDDLStorage ''mysql-01'')\<lparr>faults := [Some (Cause ''connection reset'')]\<rparr>)
             ''g1'' ''t1'' ''db'' ''tbl'' ''ALTER a'')) ''g1'' ''t1'' = [''ALTER a'']
   \<and> rows (snd (Save example_env ((NewOnlineDDLStorage ''mysql-01'')\<lparr>faults := [Some (Cause ''connection reset'')]\<rparr>)
             ''g1'' ''t1'' ''db'' ''tbl'' ''ALTER a'')) (''mysql-01'', ''g1'', ''t1'') = None
   \<and> fst (Save example_env
        (snd (Save example_env ((NewOnlineDDLStorage ''mysql-01'')\<lparr>faults := [Some (Cause ''connection reset'')]\<rparr>)
             ''g1'' ''t1'' ''db'' ''tbl'' ''ALTER a'')) ''g1'' ''t1'' ''db'' ''tbl'' ''ALTER a'') = None
   \<and> rows (snd (Save example_env
        (snd (Save example_env ((NewOnlineDDLStorage ''mysql-01'')\<lparr>faults := [Some (Cause ''connection reset'')]\<rparr>)
             ''g1'' ''t1'' ''db'' ''tbl'' ''ALTER a'')) ''g1'' ''t1'' ''db'' ''tbl'' ''ALTER a''))
          (''mysql-01'', ''g1'', ''t1'') = None"
proof -
  let ?s = "(NewOnlineDDLStorage ''mysql-01'')\<lparr>faults := [Some (Cause ''connection reset'')]\<rparr>"
  have wf0: "wf_key ?s ''g1'' ''t1''"
    by (simp add: wf_key_def lookup_def NewOnlineDDLStorage_def)
  have nd0: "\<not> is_dup ?s ''g1'' ''t1'' ''ALTER a''"
    by (simp add: is_dup_def record_at_def lookup_def NewOnlineDDLStorage_def)
  have f0: "faults ?s = Some (Cause ''connection reset'') # []" by simp
  have d0: "DDLs_at ?s ''g1'' ''t1'' = []"
    by (simp add: DDLs_at_def record_at_def lookup_def NewOnlineDDLStorage_def)
  have r0: "rows ?s = (\<lambda>_. None)" by (simp add: NewOnlineDDLStorage_def)
  have e0: "fst (Save example_env ?s ''g1'' ''t1'' ''db'' ''tbl'' ''ALTER a'')
       = Some (Scoped ScopeDownstream (Scoped ScopeDownstream (Cause ''connection reset'')))"
    by (simp add: example_env_def run_defs)
  show ?thesis
    using Save_failed_write_then_retry[OF wf0 nd0 f0, of example_env "''db''" "''tbl''"] wf0 nd0 d0 r0 e0
    by simp
qed

text \<open>
  Claim C10. \<open>Save\<close> on a key that has a Record leaves its \<open>Schema\<close> and \<open>Table\<close> as they
  are, whatever \<open>realSchema\<close> and \<open>realTable\<close> it is given; after the \<open>Save\<close> that made the
  Record, any sequence of \<open>Save\<close> calls on the key leaves them at the values of that
  first call.
\<close>

theorem Save_keeps_Schema_and_Table:
  assumes wf: "wf_key s g t"
  shows "(identity_at s g t \<noteq> None \<longrightarrow>
            identity_at (snd (Save E s g t rs rt ddl)) g t = identity_at s g t)
       \<and> (identity_at s g t = None \<longrightarrow>
            identity_at (Save_each E (snd (Save E s g t rs rt ddl)) g t calls) g t = Some (rs, rt))"
proof (intro conjI impI)
  assume "identity_at s g t \<noteq> None"
  then show "identity_at (snd (Save E s g t rs rt ddl)) g t = identity_at s g t"
    by (auto simp: identity_at_Save[OF wf])
next
  assume n: "identity_at s g t = None"
  have "wf_key (snd (Save E s g t rs rt ddl)) g t" by (rule Save_step(1)[OF wf])
  moreover have "identity_at (snd (Save E s g t rs rt ddl)) g t = Some (rs, rt)"
    using n by (simp add: identity_at_Save[OF wf])
  ultimately show "identity_at (Save_each E (snd (Save E s g t rs rt ddl)) g t calls) g t = Some (rs, rt)"
    by (rule identity_at_Save_each)
qed

theorem Save_keeps_Schema_and_Table_witness:
  "wf_key example_store ''g1'' ''t1''
   \<and> identity_at example_store ''g1'' ''t1'' = Some (''db'', ''tbl'')
   \<and> identity_at (snd (Save example_env example_store ''g1'' ''t1'' ''other_db'' ''other_tbl'' ''ALTER b'')) ''g1'' ''t1''
       = Some (''db'', ''tbl'')
   \<and> wf_key (NewOnlineDDLStorage ''mysql-01'') ''g1'' ''t1''
   \<and> identity_at (NewOnlineDDLStorage ''mysql-01'') ''g1'' ''t1'' = None
   \<and> identity_at (Save_each example_env
          (snd (Save example_env (NewOnlineDDLStorage ''mysql-01'') ''g1'' ''t1'' ''db'' ''tbl'' ''ALTER a''))
          ''g1'' ''t1'' [(''x'', ''y'', ''ALTER b''), (''u'', ''v'', ''ALTER c'')]) ''g1'' ''t1''
       = Some (''db'', ''tbl'')"
proof -
  have wf1: "wf_key example_store ''g1'' ''t1''"
    by (simp add: wf_key_def lookup_def example_store_eq wf_slice_def)
  have i1: "identity_at example_store ''g1'' ''t1'' = Some (''db'', ''tbl'')"
    by (simp add: identity_at_def record_at_def lookup_def example_store_eq contents_of_def)
  have wf0: "wf_key (NewOnlineDDLStorage ''mysql-01'') ''g1'' ''t1''"
    by (simp add: wf_key_def lookup_def NewOnlineDDLStorage_def)
  have i0: "identity_at (NewOnlineDDLStorage ''mysql-01'') ''g1'' ''t1'' = None"
    by (simp add: identity_at_def record_at_def lookup_def NewOnlineDDLStorage_def)
  show ?thesis
    using Save_keeps_Schema_and_Table[OF wf1, of example_env "''other_db''" "''other_tbl''" "''ALTER b''"]
      Save_keeps_Schema_and_Table[OF wf0, of example_env "''db''" "''tbl''" "''ALTER a''"
        "[(''x'', ''y'', ''ALTER b''), (''u'', ''v'', ''ALTER c'')]"]
      wf1 i1 wf0 i0
    by simp
qed

end
